theory Spec2Isabelle
  imports Main "HOL-Library.AList" "HOL-Library.Multiset"
begin

section \<open>The scheduler of CSPScheduler.py\<close>

text \<open>
  The class \<^verbatim>\<open>Scheduler\<close> holds the problem instance (subjects, teachers, time slots)
  and the schedule it builds. Subjects and teachers are strings, a time slot is a pair of
  strings (\<^verbatim>\<open>Tuple[str, str]\<close>). Python dictionaries keep their insertion order and
  the code iterates over them, so a dictionary is an association list: a new key goes to
  the end, an existing key keeps its place (\<open>AList.update\<close>). The lists stored in the
  schedule are created by the scheduler itself, one per assignment, so no two keys
  share a list object and mutating the list of a key is an update of that key.
\<close>

type_synonym subject = string
type_synonym teacher = string
type_synonym time_slot = "string \<times> string"
type_synonym schedule_dict = "(subject \<times> time_slot list) list"
type_synonym conflict_record = "subject \<times> time_slot"
type_synonym conflict_dict = "(teacher \<times> conflict_record list) list"

record scheduler =
  subjects :: "subject list"
  teachers :: "(teacher \<times> subject list) list"
  time_slots :: "time_slot list"
  schedule :: schedule_dict

text \<open>The exceptions the methods can raise: a missing dictionary key, and
  \<^verbatim>\<open>list.remove(x)\<close> with \<open>x\<close> not in the list.\<close>

datatype error = KeyError | ValueError

text \<open>\<^verbatim>\<open>__init__\<close>: the three inputs are stored, the schedule starts empty.\<close>

definition Scheduler ::
  "subject list \<Rightarrow> (teacher \<times> subject list) list \<Rightarrow> time_slot list \<Rightarrow> scheduler" where
  "Scheduler subjects0 teachers0 time_slots0 =
     \<lparr>subjects = subjects0, teachers = teachers0, time_slots = time_slots0, schedule = []\<rparr>"

text \<open>\<^verbatim>\<open>d.get(k, default)\<close>.\<close>

definition dict_get :: "('k \<times> 'v) list \<Rightarrow> 'k \<Rightarrow> 'v \<Rightarrow> 'v" where
  "dict_get d k dflt = (case map_of d k of None \<Rightarrow> dflt | Some v \<Rightarrow> v)"

text \<open>A Python dictionary has each key once.\<close>

definition wf_scheduler :: "scheduler \<Rightarrow> bool" where
  "wf_scheduler st \<longleftrightarrow> distinct (map fst (teachers st)) \<and> distinct (map fst (schedule st))"

subsection \<open>initialize_schedule\<close>

text \<open>
  \<^verbatim>\<open>
  available_slots = self.time_slots[:]
  for subject in self.subjects:
      if available_slots:
          chosen_slot = available_slots.pop(0)
          self.schedule[subject] = [chosen_slot]
      else:
          self.schedule[subject] = []
  \<close>
\<close>

fun initialize_loop :: "subject list \<Rightarrow> time_slot list \<Rightarrow> schedule_dict \<Rightarrow> schedule_dict" where
  "initialize_loop [] available_slots sch = sch"
| "initialize_loop (subject # rest) available_slots sch =
     (case available_slots of
        chosen_slot # popped \<Rightarrow> initialize_loop rest popped (AList.update subject [chosen_slot] sch)
      | [] \<Rightarrow> initialize_loop rest [] (AList.update subject [] sch))"

definition initialize_schedule :: "scheduler \<Rightarrow> scheduler" where
  "initialize_schedule st =
     st\<lparr>schedule := initialize_loop (subjects st) (time_slots st) (schedule st)\<rparr>"

subsection \<open>find_alternative_slot\<close>

text \<open>
  \<^verbatim>\<open>
  occupied_slots = {slot for slots in self.schedule.values() for slot in slots}
  for slot in self.time_slots:
      if slot not in occupied_slots:
          return slot
  return None
  \<close>
\<close>

definition occupied_slots_of :: "schedule_dict \<Rightarrow> time_slot set" where
  "occupied_slots_of sch = set (concat (map snd sch))"

fun first_unoccupied :: "time_slot set \<Rightarrow> time_slot list \<Rightarrow> time_slot option" where
  "first_unoccupied occupied_slots [] = None"
| "first_unoccupied occupied_slots (slot # rest) =
     (if slot \<notin> occupied_slots then Some slot else first_unoccupied occupied_slots rest)"

definition find_alternative_slot :: "scheduler \<Rightarrow> time_slot \<Rightarrow> time_slot option" where
  "find_alternative_slot st conflicting_slot =
     first_unoccupied (occupied_slots_of (schedule st)) (time_slots st)"

subsection \<open>find_teacher_conflicts\<close>

text \<open>
  \<^verbatim>\<open>
  teacher_conflicts = {}
  for teacher, subjects in self.teachers.items():
      occupied_slots = {}
      for subject in subjects:
          for time_slot in self.schedule.get(subject, []):
              if time_slot in occupied_slots:
                  teacher_conflicts.setdefault(teacher, []).append((subject, time_slot))
                  teacher_conflicts[teacher].append((occupied_slots[time_slot], time_slot))
              else:
                  occupied_slots[time_slot] = subject
  return teacher_conflicts
  \<close>
  The method is modelled with the object threaded through every loop, as a method that
  could write to it would be, and returns the object beside the result.
  \<open>dict_append\<close> is \<^verbatim>\<open>d.setdefault(k, []).append(x)\<close>, which for a key already
  present is \<^verbatim>\<open>d[k].append(x)\<close>.
\<close>

definition dict_append :: "'k \<Rightarrow> 'v \<Rightarrow> ('k \<times> 'v list) list \<Rightarrow> ('k \<times> 'v list) list" where
  "dict_append k x d = AList.update k (dict_get d k [] @ [x]) d"

type_synonym conflict_scan = "scheduler \<times> (time_slot \<rightharpoonup> subject) \<times> conflict_dict"

fun conflicts_of_slots :: "teacher \<Rightarrow> subject \<Rightarrow> time_slot list \<Rightarrow> conflict_scan \<Rightarrow> conflict_scan" where
  "conflicts_of_slots teacher subject [] acc = acc"
| "conflicts_of_slots teacher subject (time_slot # rest) (st, occupied_slots, teacher_conflicts) =
     (case occupied_slots time_slot of
        Some holder \<Rightarrow>
          conflicts_of_slots teacher subject rest
            (st, occupied_slots,
             dict_append teacher (holder, time_slot)
               (dict_append teacher (subject, time_slot) teacher_conflicts))
      | None \<Rightarrow>
          conflicts_of_slots teacher subject rest
            (st, occupied_slots(time_slot \<mapsto> subject), teacher_conflicts))"

fun conflicts_of_subjects :: "teacher \<Rightarrow> subject list \<Rightarrow> conflict_scan \<Rightarrow> conflict_scan" where
  "conflicts_of_subjects teacher [] acc = acc"
| "conflicts_of_subjects teacher (subject # rest) (st, occupied_slots, teacher_conflicts) =
     conflicts_of_subjects teacher rest
       (conflicts_of_slots teacher subject (dict_get (schedule st) subject [])
          (st, occupied_slots, teacher_conflicts))"

fun conflicts_of_teachers ::
  "(teacher \<times> subject list) list \<Rightarrow> scheduler \<times> conflict_dict \<Rightarrow> scheduler \<times> conflict_dict" where
  "conflicts_of_teachers [] acc = acc"
| "conflicts_of_teachers ((teacher, subjects0) # rest) (st, teacher_conflicts) =
     (case conflicts_of_subjects teacher subjects0 (st, Map.empty, teacher_conflicts) of
        (st', occupied_slots, teacher_conflicts') \<Rightarrow>
          conflicts_of_teachers rest (st', teacher_conflicts'))"

definition find_teacher_conflicts :: "scheduler \<Rightarrow> conflict_dict \<times> scheduler" where
  "find_teacher_conflicts st =
     (case conflicts_of_teachers (teachers st) (st, []) of
        (st', teacher_conflicts) \<Rightarrow> (teacher_conflicts, st'))"

subsection \<open>resolve_teacher_conflicts\<close>

text \<open>
  \<^verbatim>\<open>
  conflicts = self.find_teacher_conflicts()
  for teacher, sub_time_pairs in conflicts.items():
      for subject, time_slot in sub_time_pairs:
          alternative_slot = self.find_alternative_slot(time_slot)
          if alternative_slot:
              self.schedule[subject].remove(time_slot)
              self.schedule[subject].append(alternative_slot)
          else:
              for swap_subject, swap_slots in self.schedule.items():
                  if swap_subject != subject and time_slot in swap_slots:
                      swap_slots.remove(time_slot)
                      swap_slots.append(self.find_alternative_slot(time_slot) or time_slot)
                      break
  \<close>
  A time slot is a pair, which Python takes as true, so \<^verbatim>\<open>if alternative_slot\<close> and
  \<^verbatim>\<open>... or time_slot\<close> test for \<^verbatim>\<open>None\<close> only. \<^verbatim>\<open>self.schedule[subject]\<close>
  raises KeyError for a missing key, and \<^verbatim>\<open>remove\<close> raises ValueError when the slot
  is not in the list; it deletes the first occurrence otherwise.
\<close>

fun swap_with_another ::
  "subject \<Rightarrow> time_slot \<Rightarrow> (subject \<times> time_slot list) list \<Rightarrow> scheduler \<Rightarrow> scheduler" where
  "swap_with_another subject time_slot [] st = st"
| "swap_with_another subject time_slot ((swap_subject, swap_slots) # items) st =
     (if swap_subject \<noteq> subject \<and> time_slot \<in> set swap_slots then
        (let removed = remove1 time_slot swap_slots;
             st1 = st\<lparr>schedule := AList.update swap_subject removed (schedule st)\<rparr>;
             appended = removed @
               [case find_alternative_slot st1 time_slot of
                  Some alternative_slot \<Rightarrow> alternative_slot | None \<Rightarrow> time_slot]
         in st1\<lparr>schedule := AList.update swap_subject appended (schedule st1)\<rparr>)
      else swap_with_another subject time_slot items st)"

definition resolve_pair :: "conflict_record \<Rightarrow> scheduler \<Rightarrow> error + scheduler" where
  "resolve_pair pair st =
     (case pair of (subject, time_slot) \<Rightarrow>
        (case find_alternative_slot st time_slot of
           Some alternative_slot \<Rightarrow>
             (case map_of (schedule st) subject of
                None \<Rightarrow> Inl KeyError
              | Some slots \<Rightarrow>
                  if time_slot \<in> set slots
                  then Inr (st\<lparr>schedule :=
                         AList.update subject (remove1 time_slot slots @ [alternative_slot])
                           (schedule st)\<rparr>)
                  else Inl ValueError)
         | None \<Rightarrow> Inr (swap_with_another subject time_slot (schedule st) st)))"

fun resolve_pairs :: "conflict_record list \<Rightarrow> scheduler \<Rightarrow> error + scheduler" where
  "resolve_pairs [] st = Inr st"
| "resolve_pairs (pair # rest) st =
     (case resolve_pair pair st of
        Inl e \<Rightarrow> Inl e
      | Inr st' \<Rightarrow> resolve_pairs rest st')"

fun resolve_conflicts :: "conflict_dict \<Rightarrow> scheduler \<Rightarrow> error + scheduler" where
  "resolve_conflicts [] st = Inr st"
| "resolve_conflicts ((teacher, sub_time_pairs) # rest) st =
     (case resolve_pairs sub_time_pairs st of
        Inl e \<Rightarrow> Inl e
      | Inr st' \<Rightarrow> resolve_conflicts rest st')"

definition resolve_teacher_conflicts :: "scheduler \<Rightarrow> error + scheduler" where
  "resolve_teacher_conflicts st =
     (case find_teacher_conflicts st of
        (conflicts, st') \<Rightarrow> resolve_conflicts conflicts st')"

subsection \<open>finalize_schedule\<close>

text \<open>
  \<^verbatim>\<open>
  unassigned_subjects = [subject for subject in self.subjects if not self.schedule.get(subject)]
  available_slots = set(self.time_slots) - {slot for slots in self.schedule.values() for slot in slots}
  for subject in unassigned_subjects:
      for time_slot in available_slots:
          self.schedule[subject] = [time_slot]
          available_slots.remove(time_slot)
          break
  \<close>
  \<^verbatim>\<open>available_slots\<close> is a Python set, and the inner loop takes the element its
  iteration meets first. That order is fixed by the hashes of the elements and is not
  changed by removing one, so the set is the list of its elements in that order. The
  order is a parameter of the model: \<open>slot_hash\<close> ranks the slots, and every order of
  the elements is the order of some ranking.
\<close>

definition set_iteration :: "(time_slot \<Rightarrow> nat) \<Rightarrow> time_slot list \<Rightarrow> time_slot list" where
  "set_iteration slot_hash xs = sort_key slot_hash (remdups xs)"

fun finalize_loop :: "subject list \<Rightarrow> time_slot list \<Rightarrow> schedule_dict \<Rightarrow> schedule_dict" where
  "finalize_loop [] available_slots sch = sch"
| "finalize_loop (subject # rest) available_slots sch =
     (case available_slots of
        [] \<Rightarrow> finalize_loop rest [] sch
      | time_slot # others \<Rightarrow>
          finalize_loop rest (remove1 time_slot available_slots)
            (AList.update subject [time_slot] sch))"

definition unassigned_subjects_of :: "scheduler \<Rightarrow> subject list" where
  "unassigned_subjects_of st = filter (\<lambda>subject. dict_get (schedule st) subject [] = []) (subjects st)"

definition available_slots_of :: "(time_slot \<Rightarrow> nat) \<Rightarrow> scheduler \<Rightarrow> time_slot list" where
  "available_slots_of slot_hash st =
     set_iteration slot_hash
       (filter (\<lambda>slot. slot \<notin> occupied_slots_of (schedule st)) (time_slots st))"

definition finalize_schedule :: "(time_slot \<Rightarrow> nat) \<Rightarrow> scheduler \<Rightarrow> scheduler" where
  "finalize_schedule slot_hash st =
     st\<lparr>schedule :=
          finalize_loop (unassigned_subjects_of st) (available_slots_of slot_hash st) (schedule st)\<rparr>"

subsection \<open>The pipeline of the driver\<close>

text \<open>\<^verbatim>\<open>initialize_schedule(); resolve_teacher_conflicts(); finalize_schedule()\<close> on a
  freshly constructed scheduler.\<close>

definition run_pipeline ::
  "(time_slot \<Rightarrow> nat) \<Rightarrow> subject list \<Rightarrow> (teacher \<times> subject list) list \<Rightarrow> time_slot list
     \<Rightarrow> error + scheduler" where
  "run_pipeline slot_hash subjects0 teachers0 time_slots0 =
     (case resolve_teacher_conflicts (initialize_schedule (Scheduler subjects0 teachers0 time_slots0)) of
        Inl e \<Rightarrow> Inl e
      | Inr st \<Rightarrow> Inr (finalize_schedule slot_hash st))"

section \<open>The conflict records of one teacher, as a function\<close>

text \<open>
  The two inner loops of \<^verbatim>\<open>find_teacher_conflicts\<close> walk the pairs (subject, slot) of
  one teacher in the order of the teacher's list and of each subject's slot list.
  \<open>subject_pairs\<close> is that sequence, \<open>scan_pairs\<close> the records the walk appends and
  \<open>claim_pairs\<close> the dictionary \<^verbatim>\<open>occupied_slots\<close> it leaves. They are used to state
  and prove what the loops compute; the lemmas \<open>conflicts_of_slots_eq\<close>,
  \<open>conflicts_of_subjects_eq\<close> and \<open>find_teacher_conflicts_eq\<close> relate them to the loops.
\<close>

definition subject_pairs :: "schedule_dict \<Rightarrow> subject list \<Rightarrow> conflict_record list" where
  "subject_pairs sch subs = concat (map (\<lambda>subject. map (Pair subject) (dict_get sch subject [])) subs)"

fun scan_pairs :: "(time_slot \<rightharpoonup> subject) \<Rightarrow> conflict_record list \<Rightarrow> conflict_record list" where
  "scan_pairs occ [] = []"
| "scan_pairs occ ((subject, time_slot) # rest) =
     (case occ time_slot of
        Some holder \<Rightarrow> (subject, time_slot) # (holder, time_slot) # scan_pairs occ rest
      | None \<Rightarrow> scan_pairs (occ(time_slot \<mapsto> subject)) rest)"

fun claim_pairs :: "(time_slot \<rightharpoonup> subject) \<Rightarrow> conflict_record list \<Rightarrow> (time_slot \<rightharpoonup> subject)" where
  "claim_pairs occ [] = occ"
| "claim_pairs occ ((subject, time_slot) # rest) =
     (case occ time_slot of
        Some holder \<Rightarrow> claim_pairs occ rest
      | None \<Rightarrow> claim_pairs (occ(time_slot \<mapsto> subject)) rest)"

definition teacher_records :: "schedule_dict \<Rightarrow> subject list \<Rightarrow> conflict_record list" where
  "teacher_records sch subs = scan_pairs Map.empty (subject_pairs sch subs)"

text \<open>The dictionary \<^verbatim>\<open>find_teacher_conflicts\<close> returns: one entry for each teacher with
  records, in the order of the teachers.\<close>

definition conflict_entries :: "schedule_dict \<Rightarrow> (teacher \<times> subject list) list \<Rightarrow> conflict_dict" where
  "conflict_entries sch ts =
     map (\<lambda>(t, subs). (t, teacher_records sch subs))
       (filter (\<lambda>(t, subs). teacher_records sch subs \<noteq> []) ts)"

section \<open>Properties of initialize_schedule\<close>

lemma initialize_loop_fold:
  "initialize_loop subs avail sch =
     fold (\<lambda>(subject, slots). AList.update subject slots)
       (zip subs (map (\<lambda>slot. [slot]) avail @ replicate (length subs - length avail) [])) sch"
proof (induction subs arbitrary: avail sch)
  case Nil
  then show ?case by simp
next
  case (Cons s subs)
  show ?case
  proof (cases avail)
    case Nil
    with Cons[of "[]"] show ?thesis by simp
  next
    case (Cons c p)
    with Cons.IH[of p] show ?thesis by simp
  qed
qed

lemma initialize_loop_other:
  "k \<notin> set subs \<Longrightarrow> map_of (initialize_loop subs avail sch) k = map_of sch k"
  by (induction subs arbitrary: avail sch) (auto simp: update_conv' split: list.splits)

lemma initialize_loop_last:
  "i < length subs \<Longrightarrow> \<forall>j. i < j \<and> j < length subs \<longrightarrow> subs ! j \<noteq> subs ! i \<Longrightarrow>
   map_of (initialize_loop subs avail sch) (subs ! i) =
     Some (if i < length avail then [avail ! i] else [])"
proof (induction subs arbitrary: avail sch i)
  case Nil
  then show ?case by simp
next
  case (Cons s subs)
  show ?case
  proof (cases i)
    case 0
    with Cons.prems have "s \<notin> set subs"
      by (auto simp: in_set_conv_nth)
    with 0 show ?thesis
      by (cases avail) (simp_all add: initialize_loop_other update_conv')
  next
    case (Suc i')
    with Cons.prems have a: "i' < length subs" by simp
    from Suc Cons.prems have b: "\<forall>j. i' < j \<and> j < length subs \<longrightarrow> subs ! j \<noteq> subs ! i'"
      by auto
    from Suc Cons.IH[OF a b] show ?thesis
      by (cases avail) simp_all
  qed
qed

lemma filter_update_le:
  "length (filter P (AList.update k v sch)) \<le> length (filter P sch) + (if P (k, v) then 1 else 0)"
  by (induction sch) auto

lemma initialize_loop_scheduled:
  "length (filter (\<lambda>(subject, slots). slots \<noteq> []) (initialize_loop subs avail sch))
     \<le> length (filter (\<lambda>(subject, slots). slots \<noteq> []) sch) + length avail"
proof (induction subs arbitrary: avail sch)
  case Nil
  then show ?case by simp
next
  case (Cons s subs)
  show ?case
  proof (cases avail)
    case Nil
    have "length (filter (\<lambda>(subject, slots). slots \<noteq> []) (AList.update s [] sch))
           \<le> length (filter (\<lambda>(subject, slots). slots \<noteq> []) sch)"
      using filter_update_le[of "\<lambda>(subject, slots). slots \<noteq> []" s "[]" sch] by simp
    with Nil Cons.IH[of "[]" "AList.update s [] sch"] show ?thesis by simp
  next
    case (Cons c p)
    have "length (filter (\<lambda>(subject, slots). slots \<noteq> []) (AList.update s [c] sch))
           \<le> length (filter (\<lambda>(subject, slots). slots \<noteq> []) sch) + 1"
      using filter_update_le[of "\<lambda>(subject, slots). slots \<noteq> []" s "[c]" sch] by simp
    with Cons Cons.IH[of p "AList.update s [c] sch"] show ?thesis by simp
  qed
qed

text \<open>
  C3. \<^verbatim>\<open>initialize_schedule\<close> performs, in the order of the subjects list, the
  assignment of the singleton list of the i-th time slot to the i-th subject while
  i is below the number of time slots, and of the empty list to every later subject.
  A subject therefore ends with the list of its last position in the subjects list
  (with the list of its only position when the subjects are distinct), a key that is
  not a subject keeps its entry, and on a fresh scheduler at most as many subjects
  as there are time slots end with a slot. The result is a function of the inputs.
\<close>

theorem initialize_schedule_assigns:
  "schedule (initialize_schedule st) =
     fold (\<lambda>(subject, slots). AList.update subject slots)
       (zip (subjects st)
          (map (\<lambda>slot. [slot]) (time_slots st)
             @ replicate (length (subjects st) - length (time_slots st)) []))
       (schedule st)
   \<and> (\<forall>i < length (subjects st).
        (\<forall>j. i < j \<and> j < length (subjects st) \<longrightarrow> subjects st ! j \<noteq> subjects st ! i) \<longrightarrow>
        map_of (schedule (initialize_schedule st)) (subjects st ! i) =
          Some (if i < length (time_slots st) then [time_slots st ! i] else []))
   \<and> (\<forall>k. k \<notin> set (subjects st) \<longrightarrow>
        map_of (schedule (initialize_schedule st)) k = map_of (schedule st) k)
   \<and> (schedule st = [] \<longrightarrow>
        length (filter (\<lambda>(subject, slots). slots \<noteq> []) (schedule (initialize_schedule st)))
          \<le> length (time_slots st))
   \<and> subjects (initialize_schedule st) = subjects st
   \<and> teachers (initialize_schedule st) = teachers st
   \<and> time_slots (initialize_schedule st) = time_slots st"
proof -
  have "schedule st = [] \<longrightarrow>
        length (filter (\<lambda>(subject, slots). slots \<noteq> []) (schedule (initialize_schedule st)))
          \<le> length (time_slots st)"
    using initialize_loop_scheduled[of "subjects st" "time_slots st" "[]"]
    by (simp add: initialize_schedule_def)
  then show ?thesis
    by (simp add: initialize_schedule_def initialize_loop_fold[symmetric] initialize_loop_last
        initialize_loop_other)
qed

theorem initialize_schedule_assigns_witness:
  "map_of (schedule (initialize_schedule
      (Scheduler [''Math'', ''Physics'', ''Chemistry'', ''Biology''] []
         [(''Monday'', ''9AM''), (''Monday'', ''10AM''), (''Monday'', ''11AM'')]))) ''Physics''
     = Some [(''Monday'', ''10AM'')]
   \<and> map_of (schedule (initialize_schedule
      (Scheduler [''Math'', ''Physics'', ''Chemistry'', ''Biology''] []
         [(''Monday'', ''9AM''), (''Monday'', ''10AM''), (''Monday'', ''11AM'')]))) ''Biology''
     = Some []
   \<and> map_of (schedule (initialize_schedule
      (Scheduler [''Math'', ''Physics'', ''Chemistry'', ''Biology''] []
         [(''Monday'', ''9AM''), (''Monday'', ''10AM''), (''Monday'', ''11AM'')]))) ''Art''
     = None
   \<and> length (filter (\<lambda>(subject, slots). slots \<noteq> [])
        (schedule (initialize_schedule
          (Scheduler [''Math'', ''Physics'', ''Chemistry'', ''Biology''] []
             [(''Monday'', ''9AM''), (''Monday'', ''10AM''), (''Monday'', ''11AM'')])))) \<le> 3"
proof -
  let ?st = "Scheduler [''Math'', ''Physics'', ''Chemistry'', ''Biology''] []
         [(''Monday'', ''9AM''), (''Monday'', ''10AM''), (''Monday'', ''11AM'')]"
  note t = initialize_schedule_assigns[of ?st]
  have s: "subjects ?st = [''Math'', ''Physics'', ''Chemistry'', ''Biology'']"
    and ts: "time_slots ?st = [(''Monday'', ''9AM''), (''Monday'', ''10AM''), (''Monday'', ''11AM'')]"
    and e: "schedule ?st = []"
    by (simp_all add: Scheduler_def)
  from t have last: "\<And>i. i < length (subjects ?st) \<Longrightarrow>
        (\<forall>j. i < j \<and> j < length (subjects ?st) \<longrightarrow> subjects ?st ! j \<noteq> subjects ?st ! i) \<Longrightarrow>
        map_of (schedule (initialize_schedule ?st)) (subjects ?st ! i) =
          Some (if i < length (time_slots ?st) then [time_slots ?st ! i] else [])"
    by blast
  have d: "distinct (subjects ?st)" by (simp add: s)
  have distinct_after: "\<And>i. i < length (subjects ?st) \<Longrightarrow>
      \<forall>j. i < j \<and> j < length (subjects ?st) \<longrightarrow> subjects ?st ! j \<noteq> subjects ?st ! i"
    using nth_eq_iff_index_eq[OF d] by auto
  have p: "map_of (schedule (initialize_schedule ?st)) ''Physics'' = Some [(''Monday'', ''10AM'')]"
    using last[of 1, OF _ distinct_after[of 1]] by (simp add: s ts)
  have b: "map_of (schedule (initialize_schedule ?st)) ''Biology'' = Some []"
    using last[of 3, OF _ distinct_after[of 3]] by (simp add: s ts)
  from t have "''Art'' \<notin> set (subjects ?st) \<longrightarrow>
      map_of (schedule (initialize_schedule ?st)) ''Art'' = map_of (schedule ?st) ''Art''"
    by blast
  then have a: "map_of (schedule (initialize_schedule ?st)) ''Art'' = None"
    by (simp add: s e)
  from t e have "length (filter (\<lambda>(subject, slots). slots \<noteq> []) (schedule (initialize_schedule ?st)))
          \<le> length (time_slots ?st)"
    by blast
  then have c: "length (filter (\<lambda>(subject, slots). slots \<noteq> []) (schedule (initialize_schedule ?st))) \<le> 3"
    by (simp add: ts)
  from p b a c show ?thesis by blast
qed

section \<open>Properties of find_alternative_slot\<close>

lemma first_unoccupied_None: "first_unoccupied occ xs = None \<longleftrightarrow> set xs \<subseteq> occ"
  by (induction xs) auto

lemma first_unoccupied_Some:
  "first_unoccupied occ xs = Some x \<longleftrightarrow>
     (\<exists>pre post. xs = pre @ x # post \<and> set pre \<subseteq> occ \<and> x \<notin> occ)"
proof (induction xs)
  case Nil
  then show ?case by simp
next
  case (Cons a xs)
  show ?case
  proof (cases "a \<in> occ")
    case True
    have "(\<exists>pre post. a # xs = pre @ x # post \<and> set pre \<subseteq> occ \<and> x \<notin> occ)
          \<longleftrightarrow> (\<exists>pre post. xs = pre @ x # post \<and> set pre \<subseteq> occ \<and> x \<notin> occ)"
    proof
      assume "\<exists>pre post. a # xs = pre @ x # post \<and> set pre \<subseteq> occ \<and> x \<notin> occ"
      then obtain pre post where p: "a # xs = pre @ x # post" "set pre \<subseteq> occ" "x \<notin> occ" by blast
      with True obtain pre' where "pre = a # pre'" by (cases pre) auto
      with p show "\<exists>pre post. xs = pre @ x # post \<and> set pre \<subseteq> occ \<and> x \<notin> occ" by auto
    next
      assume "\<exists>pre post. xs = pre @ x # post \<and> set pre \<subseteq> occ \<and> x \<notin> occ"
      then obtain pre post where p: "xs = pre @ x # post" "set pre \<subseteq> occ" "x \<notin> occ" by blast
      with True have "a # xs = (a # pre) @ x # post \<and> set (a # pre) \<subseteq> occ \<and> x \<notin> occ" by simp
      then show "\<exists>pre post. a # xs = pre @ x # post \<and> set pre \<subseteq> occ \<and> x \<notin> occ" by blast
    qed
    with True Cons show ?thesis by simp
  next
    case False
    have "(\<exists>pre post. a # xs = pre @ x # post \<and> set pre \<subseteq> occ \<and> x \<notin> occ) \<longleftrightarrow> a = x"
    proof
      assume "\<exists>pre post. a # xs = pre @ x # post \<and> set pre \<subseteq> occ \<and> x \<notin> occ"
      then obtain pre post where p: "a # xs = pre @ x # post" "set pre \<subseteq> occ" "x \<notin> occ" by blast
      with False show "a = x" by (cases pre) auto
    next
      assume "a = x"
      with False have "a # xs = [] @ x # xs \<and> set [] \<subseteq> occ \<and> x \<notin> occ" by simp
      then show "\<exists>pre post. a # xs = pre @ x # post \<and> set pre \<subseteq> occ \<and> x \<notin> occ" by blast
    qed
    with False show ?thesis by auto
  qed
qed

lemma occupied_slots_of_iff:
  "slot \<in> occupied_slots_of sch \<longleftrightarrow> (\<exists>subject slots. (subject, slots) \<in> set sch \<and> slot \<in> set slots)"
  by (force simp: occupied_slots_of_def)

text \<open>
  C7. \<^verbatim>\<open>find_alternative_slot\<close> returns the first time slot, in the order of
  \<^verbatim>\<open>time_slots\<close>, that is in no subject's slot list: every slot before it is in some
  subject's list and it is in none. It returns \<^verbatim>\<open>None\<close> exactly when every time
  slot is in some subject's list.
\<close>

theorem find_alternative_slot_first_free:
  "(find_alternative_slot st conflicting_slot = None \<longleftrightarrow>
      (\<forall>slot \<in> set (time_slots st).
         \<exists>subject slots. (subject, slots) \<in> set (schedule st) \<and> slot \<in> set slots))
   \<and> (\<forall>x. find_alternative_slot st conflicting_slot = Some x \<longleftrightarrow>
        (\<exists>pre post. time_slots st = pre @ x # post
           \<and> (\<forall>slot \<in> set pre.
                \<exists>subject slots. (subject, slots) \<in> set (schedule st) \<and> slot \<in> set slots)
           \<and> \<not> (\<exists>subject slots. (subject, slots) \<in> set (schedule st) \<and> x \<in> set slots)))"
  unfolding find_alternative_slot_def first_unoccupied_None first_unoccupied_Some
  by (auto simp: subset_iff occupied_slots_of_iff)

theorem find_alternative_slot_first_free_witness:
  "find_alternative_slot
     \<lparr>subjects = [''A''], teachers = [],
      time_slots = [(''Mon'', ''9AM''), (''Mon'', ''10AM'')],
      schedule = [(''A'', [(''Mon'', ''9AM'')])]\<rparr> (''Mon'', ''9AM'') = Some (''Mon'', ''10AM'')"
proof -
  let ?st = "\<lparr>subjects = [''A''], teachers = [],
      time_slots = [(''Mon'', ''9AM''), (''Mon'', ''10AM'')],
      schedule = [(''A'', [(''Mon'', ''9AM'')])]\<rparr>"
  have "time_slots ?st = [(''Mon'', ''9AM'')] @ (''Mon'', ''10AM'') # []
      \<and> (\<forall>slot \<in> set [(''Mon'', ''9AM'')].
            \<exists>subject slots. (subject, slots) \<in> set (schedule ?st) \<and> slot \<in> set slots)
      \<and> \<not> (\<exists>subject slots. (subject, slots) \<in> set (schedule ?st) \<and> (''Mon'', ''10AM'') \<in> set slots)"
    by simp
  then have "\<exists>pre post. time_slots ?st = pre @ (''Mon'', ''10AM'') # post
      \<and> (\<forall>slot \<in> set pre.
            \<exists>subject slots. (subject, slots) \<in> set (schedule ?st) \<and> slot \<in> set slots)
      \<and> \<not> (\<exists>subject slots. (subject, slots) \<in> set (schedule ?st) \<and> (''Mon'', ''10AM'') \<in> set slots)"
    by blast
  with find_alternative_slot_first_free[of ?st "(''Mon'', ''9AM'')"] show ?thesis
    by blast
qed

text \<open>
  C8. The result of \<^verbatim>\<open>find_alternative_slot\<close> does not depend on its argument: any
  two arguments give the same result on the same scheduler. In particular the argument
  itself is returned when it is the first unoccupied time slot.
\<close>

theorem find_alternative_slot_ignores_argument:
  "find_alternative_slot st slot1 = find_alternative_slot st slot2
   \<and> (\<forall>pre post. time_slots st = pre @ slot1 # post
          \<and> set pre \<subseteq> occupied_slots_of (schedule st)
          \<and> slot1 \<notin> occupied_slots_of (schedule st)
        \<longrightarrow> find_alternative_slot st slot1 = Some slot1)"
  unfolding find_alternative_slot_def first_unoccupied_Some by blast

theorem find_alternative_slot_ignores_argument_witness:
  "find_alternative_slot
     \<lparr>subjects = [''A''], teachers = [],
      time_slots = [(''Mon'', ''9AM''), (''Mon'', ''10AM'')],
      schedule = [(''A'', [(''Mon'', ''9AM'')])]\<rparr> (''Mon'', ''10AM'') = Some (''Mon'', ''10AM'')"
proof -
  let ?st = "\<lparr>subjects = [''A''], teachers = [],
      time_slots = [(''Mon'', ''9AM''), (''Mon'', ''10AM'')],
      schedule = [(''A'', [(''Mon'', ''9AM'')])]\<rparr>"
  have "time_slots ?st = [(''Mon'', ''9AM'')] @ (''Mon'', ''10AM'') # []
      \<and> set [(''Mon'', ''9AM'')] \<subseteq> occupied_slots_of (schedule ?st)
      \<and> (''Mon'', ''10AM'') \<notin> occupied_slots_of (schedule ?st)"
    by (simp add: occupied_slots_of_def)
  with find_alternative_slot_ignores_argument[of ?st "(''Mon'', ''10AM'')"] show ?thesis
    by blast
qed

section \<open>Properties of find_teacher_conflicts\<close>

lemma scan_pairs_append:
  "scan_pairs occ (xs @ ys) = scan_pairs occ xs @ scan_pairs (claim_pairs occ xs) ys"
proof (induction xs arbitrary: occ)
  case Nil
  then show ?case by simp
next
  case (Cons x xs)
  obtain s t where x: "x = (s, t)" by (cases x)
  show ?case
  proof (cases "occ t")
    case None
    note ih = Cons.IH[of "occ(t \<mapsto> s)"]
    have "scan_pairs occ ((x # xs) @ ys) = scan_pairs (occ(t \<mapsto> s)) (xs @ ys)"
      using None by (simp add: x)
    also note ih
    also have "scan_pairs (occ(t \<mapsto> s)) xs = scan_pairs occ (x # xs)"
      using None by (simp add: x)
    also have "claim_pairs (occ(t \<mapsto> s)) xs = claim_pairs occ (x # xs)"
      using None by (simp add: x)
    finally show ?thesis .
  next
    case (Some h)
    with Cons.IH[of occ] show ?thesis by (simp add: x)
  qed
qed

lemma claim_pairs_append:
  "claim_pairs occ (xs @ ys) = claim_pairs (claim_pairs occ xs) ys"
proof (induction xs arbitrary: occ)
  case Nil
  then show ?case by simp
next
  case (Cons x xs)
  obtain s t where x: "x = (s, t)" by (cases x)
  show ?case
  proof (cases "occ t")
    case None
    note ih = Cons.IH[of "occ(t \<mapsto> s)"]
    have "claim_pairs occ ((x # xs) @ ys) = claim_pairs (occ(t \<mapsto> s)) (xs @ ys)"
      using None by (simp add: x)
    also note ih
    also have "claim_pairs (occ(t \<mapsto> s)) xs = claim_pairs occ (x # xs)"
      using None by (simp add: x)
    finally show ?thesis .
  next
    case (Some h)
    with Cons.IH[of occ] show ?thesis by (simp add: x)
  qed
qed

lemma subject_pairs_Nil [simp]: "subject_pairs sch [] = []"
  by (simp add: subject_pairs_def)

lemma subject_pairs_Cons:
  "subject_pairs sch (s # subs) = map (Pair s) (dict_get sch s []) @ subject_pairs sch subs"
  by (simp add: subject_pairs_def)

lemma subject_pairs_append:
  "subject_pairs sch (xs @ ys) = subject_pairs sch xs @ subject_pairs sch ys"
  by (simp add: subject_pairs_def)

lemma conflicts_of_slots_eq:
  "conflicts_of_slots t s xs (st, occ, tc) =
     (st, claim_pairs occ (map (Pair s) xs), fold (dict_append t) (scan_pairs occ (map (Pair s) xs)) tc)"
  by (induction xs arbitrary: occ tc) (auto split: option.splits)

lemma conflicts_of_subjects_eq:
  "conflicts_of_subjects t subs (st, occ, tc) =
     (st, claim_pairs occ (subject_pairs (schedule st) subs),
      fold (dict_append t) (scan_pairs occ (subject_pairs (schedule st) subs)) tc)"
  by (induction subs arbitrary: occ tc)
     (simp_all add: conflicts_of_slots_eq subject_pairs_Cons scan_pairs_append claim_pairs_append)

lemma update_absent: "k \<notin> fst ` set d \<Longrightarrow> AList.update k v d = d @ [(k, v)]"
  by (induction d) auto

lemma dict_get_absent: "k \<notin> fst ` set d \<Longrightarrow> dict_get d k dflt = dflt"
  by (simp add: dict_get_def map_of_eq_None_iff[THEN iffD2])

lemma dict_get_update_same: "dict_get (AList.update k v d) k dflt = v"
  by (simp add: dict_get_def update_conv')

lemma fold_dict_append:
  "fold (dict_append k) xs d = (if xs = [] then d else AList.update k (dict_get d k [] @ xs) d)"
proof (induction xs arbitrary: d)
  case Nil
  then show ?case by simp
next
  case (Cons x xs)
  then show ?case
    by (simp add: dict_append_def dict_get_update_same)
qed

lemma fold_dict_append_absent:
  "k \<notin> fst ` set d \<Longrightarrow> fold (dict_append k) xs d = (if xs = [] then d else d @ [(k, xs)])"
  by (simp add: fold_dict_append update_absent dict_get_absent)

lemma fst_conflict_entries: "fst ` set (conflict_entries sch ts) \<subseteq> fst ` set ts"
  by (force simp: conflict_entries_def)

lemma conflicts_of_teachers_eq:
  "distinct (map fst ts) \<Longrightarrow> fst ` set ts \<inter> fst ` set tc = {} \<Longrightarrow>
   conflicts_of_teachers ts (st, tc) = (st, tc @ conflict_entries (schedule st) ts)"
proof (induction ts arbitrary: tc)
  case Nil
  then show ?case by (simp add: conflict_entries_def)
next
  case (Cons a ts)
  obtain t subs where a: "a = (t, subs)" by (cases a)
  from Cons.prems a have abs: "t \<notin> fst ` set tc" by auto
  let ?r = "teacher_records (schedule st) subs"
  let ?tc = "if ?r = [] then tc else tc @ [(t, ?r)]"
  from Cons.prems a have d: "distinct (map fst ts)" and n: "t \<notin> fst ` set ts" by auto
  from Cons.prems a n have disj: "fst ` set ts \<inter> fst ` set ?tc = {}" by auto
  have "conflicts_of_teachers (a # ts) (st, tc) = conflicts_of_teachers ts (st, ?tc)"
    by (simp add: a conflicts_of_subjects_eq fold_dict_append_absent[OF abs] teacher_records_def)
  also have "\<dots> = (st, ?tc @ conflict_entries (schedule st) ts)"
    by (rule Cons.IH[OF d disj])
  also have "?tc @ conflict_entries (schedule st) ts = tc @ conflict_entries (schedule st) (a # ts)"
    by (simp add: conflict_entries_def a)
  finally show ?case .
qed

lemma conflicts_of_teachers_state: "fst (conflicts_of_teachers ts (st, tc)) = st"
  by (induction ts arbitrary: tc) (auto simp: conflicts_of_subjects_eq)

lemma find_teacher_conflicts_state: "snd (find_teacher_conflicts st) = st"
  using conflicts_of_teachers_state[of "teachers st" st "[]"]
  by (auto simp: find_teacher_conflicts_def split: prod.splits)

lemma find_teacher_conflicts_eq:
  "distinct (map fst (teachers st)) \<Longrightarrow>
   find_teacher_conflicts st = (conflict_entries (schedule st) (teachers st), st)"
  by (simp add: find_teacher_conflicts_def conflicts_of_teachers_eq)

lemma claim_pairs_lookup:
  "claim_pairs occ P t =
     (case occ t of Some h \<Rightarrow> Some h | None \<Rightarrow> map_option fst (find (\<lambda>p. snd p = t) P))"
proof (induction P arbitrary: occ)
  case Nil
  then show ?case by (simp split: option.splits)
next
  case (Cons x P)
  obtain s t' where x: "x = (s, t')" by (cases x)
  show ?case
  proof (cases "occ t'")
    case None
    have "claim_pairs occ (x # P) t = claim_pairs (occ(t' \<mapsto> s)) P t"
      using None by (simp add: x)
    also have "\<dots> = (case (occ(t' \<mapsto> s)) t of Some h \<Rightarrow> Some h
                       | None \<Rightarrow> map_option fst (find (\<lambda>p. snd p = t) P))"
      by (rule Cons.IH)
    also have "\<dots> = (case occ t of Some h \<Rightarrow> Some h
                       | None \<Rightarrow> map_option fst (find (\<lambda>p. snd p = t) (x # P)))"
      using None by (auto simp: x split: option.splits)
    finally show ?thesis .
  next
    case (Some h)
    have "claim_pairs occ (x # P) t = claim_pairs occ P t"
      using Some by (simp add: x)
    also have "\<dots> = (case occ t of Some h \<Rightarrow> Some h
                       | None \<Rightarrow> map_option fst (find (\<lambda>p. snd p = t) P))"
      by (rule Cons.IH)
    also have "\<dots> = (case occ t of Some h \<Rightarrow> Some h
                       | None \<Rightarrow> map_option fst (find (\<lambda>p. snd p = t) (x # P)))"
      using Some by (auto simp: x split: option.splits)
    finally show ?thesis .
  qed
qed

lemma find_append_list:
  "find P (xs @ ys) = (case find P xs of Some x \<Rightarrow> Some x | None \<Rightarrow> find P ys)"
  by (induction xs) auto

lemma find_snd_None: "(find (\<lambda>p. snd p = t) P = None) = (t \<notin> snd ` set P)"
  by (induction P) auto

lemma dom_claim_pairs: "dom (claim_pairs occ P) = dom occ \<union> snd ` set P"
proof -
  have "(claim_pairs occ P t \<noteq> None) = (occ t \<noteq> None \<or> t \<in> snd ` set P)" for t
  proof (cases "occ t")
    case None
    then show ?thesis
      using find_snd_None[of t P] by (simp add: claim_pairs_lookup)
  next
    case (Some h)
    then show ?thesis by (simp add: claim_pairs_lookup)
  qed
  then show ?thesis by (auto simp: dom_def)
qed

lemma scan_pairs_Nil_iff:
  "scan_pairs occ P = [] \<longleftrightarrow> distinct (map snd P) \<and> snd ` set P \<inter> dom occ = {}"
proof (induction P arbitrary: occ)
  case Nil
  then show ?case by simp
next
  case (Cons x P)
  obtain s t where x: "x = (s, t)" by (cases x)
  show ?case
  proof (cases "occ t")
    case None
    have "scan_pairs occ (x # P) = scan_pairs (occ(t \<mapsto> s)) P"
      using None by (simp add: x)
    moreover have "scan_pairs (occ(t \<mapsto> s)) P = [] \<longleftrightarrow>
        distinct (map snd P) \<and> snd ` set P \<inter> dom (occ(t \<mapsto> s)) = {}"
      by (rule Cons.IH)
    moreover have "(distinct (map snd P) \<and> snd ` set P \<inter> dom (occ(t \<mapsto> s)) = {})
        \<longleftrightarrow> (distinct (map snd (x # P)) \<and> snd ` set (x # P) \<inter> dom occ = {})"
      using None by (auto simp: x)
    ultimately show ?thesis by simp
  next
    case (Some h)
    then show ?thesis by (auto simp: x)
  qed
qed

lemma map_snd_subject_pairs:
  "map snd (subject_pairs sch subs) = concat (map (\<lambda>s. dict_get sch s []) subs)"
  by (induction subs) (simp_all add: subject_pairs_Cons comp_def)

lemma find_subject_pairs:
  "find (\<lambda>p. snd p = S) (subject_pairs sch subs) =
     map_option (\<lambda>s. (s, S)) (find (\<lambda>s. S \<in> set (dict_get sch s [])) subs)"
proof (induction subs)
  case Nil
  then show ?case by simp
next
  case (Cons s subs)
  have a: "find (\<lambda>p. snd p = S) (map (Pair s) l) = (if S \<in> set l then Some (s, S) else None)" for l
    by (induction l) auto
  show ?case
    by (simp add: subject_pairs_Cons find_append_list a Cons.IH)
qed

lemma teacher_records_Nil_iff:
  "teacher_records sch subs = [] \<longleftrightarrow> distinct (concat (map (\<lambda>s. dict_get sch s []) subs))"
  by (simp add: teacher_records_def scan_pairs_Nil_iff map_snd_subject_pairs)

lemma map_of_conflict_entries:
  "distinct (map fst ts) \<Longrightarrow> (T, subs) \<in> set ts \<Longrightarrow>
   map_of (conflict_entries sch ts) T =
     (if teacher_records sch subs = [] then None else Some (teacher_records sch subs))"
proof (induction ts)
  case Nil
  then show ?case by simp
next
  case (Cons a ts)
  obtain t subs' where a: "a = (t, subs')" by (cases a)
  show ?case
  proof (cases "t = T")
    case True
    with Cons.prems a have "subs' = subs" by (auto simp: rev_image_eqI)
    moreover from True Cons.prems a have "T \<notin> fst ` set (conflict_entries sch ts)"
      using fst_conflict_entries[of sch ts] by auto
    then have "map_of (conflict_entries sch ts) T = None"
      by (simp add: map_of_eq_None_iff)
    ultimately show ?thesis using True a
      by (simp add: conflict_entries_def)
  next
    case False
    with Cons.prems a have "(T, subs) \<in> set ts" "distinct (map fst ts)" by auto
    with Cons.IH False a show ?thesis
      by (simp add: conflict_entries_def)
  qed
qed

lemma map_of_conflict_entries_nonempty:
  "map_of (conflict_entries sch ts) T \<noteq> Some []"
proof
  assume "map_of (conflict_entries sch ts) T = Some []"
  then have "(T, []) \<in> set (conflict_entries sch ts)" by (rule map_of_SomeD)
  then show False by (auto simp: conflict_entries_def)
qed

lemma teacher_records_conflict:
  assumes j: "j < length subs" and i: "i < j"
    and Si: "S \<in> set (dict_get sch (subs ! i) [])"
    and Sj: "S \<in> set (dict_get sch (subs ! j) [])"
  shows "\<exists>k pre post. k \<le> i \<and> S \<in> set (dict_get sch (subs ! k) [])
           \<and> (\<forall>m < k. S \<notin> set (dict_get sch (subs ! m) []))
           \<and> teacher_records sch subs = pre @ (subs ! j, S) # (subs ! k, S) # post"
proof -
  let ?holds = "\<lambda>s. S \<in> set (dict_get sch s [])"
  let ?B = "subs ! j"
  let ?before = "take j subs"
  have subs: "subs = ?before @ ?B # drop (Suc j) subs"
    using j by (rule id_take_nth_drop)
  from i j have ii: "i < length ?before" by simp
  from i j Si have "?holds (?before ! i)" by simp
  with ii have "\<exists>s \<in> set ?before. ?holds s" by (metis nth_mem)
  then obtain first where first: "find ?holds ?before = Some first"
    by (cases "find ?holds ?before") (auto simp: find_None_iff)
  then obtain k where k: "k < length ?before" "?holds (?before ! k)" "first = ?before ! k"
      "\<forall>m < k. \<not> ?holds (?before ! m)"
    by (auto simp: find_Some_iff)
  from k(1) j have kj: "k < j" by simp
  have ki: "k \<le> i"
  proof (rule ccontr)
    assume "\<not> k \<le> i"
    then have "i < k" by simp
    with k(4) have "\<not> ?holds (?before ! i)" by blast
    with i j Si show False by simp
  qed
  from kj k have k2: "?holds (subs ! k)" "first = subs ! k" "\<forall>m < k. \<not> ?holds (subs ! m)"
    by auto
  from Sj obtain l1 l2 where l: "dict_get sch ?B [] = l1 @ S # l2"
    by (auto dest: split_list)
  let ?P1 = "subject_pairs sch ?before @ map (Pair ?B) l1"
  let ?P2 = "map (Pair ?B) l2 @ subject_pairs sch (drop (Suc j) subs)"
  have "subject_pairs sch subs = subject_pairs sch (?before @ ?B # drop (Suc j) subs)"
    using subs by simp
  then have pairs: "subject_pairs sch subs = ?P1 @ (?B, S) # ?P2"
    by (simp add: subject_pairs_append subject_pairs_Cons l)
  have "claim_pairs Map.empty (subject_pairs sch ?before) S = Some first"
    by (simp add: claim_pairs_lookup find_subject_pairs first)
  then have occ: "claim_pairs Map.empty ?P1 S = Some first"
    by (simp add: claim_pairs_append claim_pairs_lookup[of "claim_pairs Map.empty (subject_pairs sch ?before)"])
  have "teacher_records sch subs =
      scan_pairs Map.empty ?P1 @ scan_pairs (claim_pairs Map.empty ?P1) ((?B, S) # ?P2)"
    by (simp only: teacher_records_def pairs scan_pairs_append)
  also have "scan_pairs (claim_pairs Map.empty ?P1) ((?B, S) # ?P2) =
      (?B, S) # (first, S) # scan_pairs (claim_pairs Map.empty ?P1) ?P2"
    using occ by simp
  finally have "teacher_records sch subs =
      scan_pairs Map.empty ?P1 @ (?B, S) # (subs ! k, S) # scan_pairs (claim_pairs Map.empty ?P1) ?P2"
    by (simp add: k2)
  with ki k2 show ?thesis by blast
qed

text \<open>
  C4 (as amended). Let teacher T be a key of the teachers dictionary with subject list
  \<open>subs\<close>. Whenever a slot S is in the slot list of the subject at position i and of the
  subject at a later position j, the entry of T in the result of
  \<^verbatim>\<open>find_teacher_conflicts\<close> contains the record (subject j, S) immediately followed by
  (subject k, S), where k is the first position of T's list whose subject holds S
  (so k is at most i, and the second record names the subject at i when no earlier
  subject of the list holds S). T is absent from the result exactly when the slot
  lists of the entries of T's list, taken one after the other, repeat no slot, and T
  is never present with an empty list.
\<close>

theorem find_teacher_conflicts_records:
  assumes "distinct (map fst (teachers st))" and "(T, subs) \<in> set (teachers st)"
  shows "(\<forall>i j S. i < j \<and> j < length subs
            \<and> S \<in> set (dict_get (schedule st) (subs ! i) [])
            \<and> S \<in> set (dict_get (schedule st) (subs ! j) []) \<longrightarrow>
          (\<exists>k recs pre post. k \<le> i
             \<and> S \<in> set (dict_get (schedule st) (subs ! k) [])
             \<and> (\<forall>m < k. S \<notin> set (dict_get (schedule st) (subs ! m) []))
             \<and> map_of (fst (find_teacher_conflicts st)) T = Some recs
             \<and> recs = pre @ (subs ! j, S) # (subs ! k, S) # post))
       \<and> (map_of (fst (find_teacher_conflicts st)) T = None \<longleftrightarrow>
            distinct (concat (map (\<lambda>subject. dict_get (schedule st) subject []) subs)))
       \<and> map_of (fst (find_teacher_conflicts st)) T \<noteq> Some []"
proof -
  let ?sch = "schedule st"
  have eq: "fst (find_teacher_conflicts st) = conflict_entries ?sch (teachers st)"
    using assms(1) by (simp add: find_teacher_conflicts_eq)
  have entry: "map_of (conflict_entries ?sch (teachers st)) T =
      (if teacher_records ?sch subs = [] then None else Some (teacher_records ?sch subs))"
    using assms by (rule map_of_conflict_entries)
  have a: "\<exists>k recs pre post. k \<le> i
             \<and> S \<in> set (dict_get ?sch (subs ! k) [])
             \<and> (\<forall>m < k. S \<notin> set (dict_get ?sch (subs ! m) []))
             \<and> map_of (fst (find_teacher_conflicts st)) T = Some recs
             \<and> recs = pre @ (subs ! j, S) # (subs ! k, S) # post"
    if h: "i < j \<and> j < length subs \<and> S \<in> set (dict_get ?sch (subs ! i) [])
            \<and> S \<in> set (dict_get ?sch (subs ! j) [])" for i j S
  proof -
    from h teacher_records_conflict[of j subs i S ?sch]
    obtain k pre post where k: "k \<le> i" "S \<in> set (dict_get ?sch (subs ! k) [])"
        "\<forall>m < k. S \<notin> set (dict_get ?sch (subs ! m) [])"
        "teacher_records ?sch subs = pre @ (subs ! j, S) # (subs ! k, S) # post"
      by blast
    from k(4) have "teacher_records ?sch subs \<noteq> []" by simp
    with entry eq have "map_of (fst (find_teacher_conflicts st)) T = Some (teacher_records ?sch subs)"
      by simp
    with k show ?thesis by blast
  qed
  have b: "map_of (fst (find_teacher_conflicts st)) T = None \<longleftrightarrow>
            distinct (concat (map (\<lambda>subject. dict_get ?sch subject []) subs))"
    by (simp add: eq entry teacher_records_Nil_iff)
  have c: "map_of (fst (find_teacher_conflicts st)) T \<noteq> Some []"
    by (simp add: eq map_of_conflict_entries_nonempty)
  from a b c show ?thesis by blast
qed

theorem find_teacher_conflicts_records_witness:
  "\<exists>pre post.
     map_of (fst (find_teacher_conflicts
       \<lparr>subjects = [''A'', ''B''], teachers = [(''T'', [''A'', ''B''])],
        time_slots = [(''Mon'', ''9AM'')],
        schedule = [(''A'', [(''Mon'', ''9AM'')]), (''B'', [(''Mon'', ''9AM'')])]\<rparr>)) ''T''
     = Some (pre @ (''B'', (''Mon'', ''9AM'')) # (''A'', (''Mon'', ''9AM'')) # post)"
proof -
  let ?st = "\<lparr>subjects = [''A'', ''B''], teachers = [(''T'', [''A'', ''B''])],
        time_slots = [(''Mon'', ''9AM'')],
        schedule = [(''A'', [(''Mon'', ''9AM'')]), (''B'', [(''Mon'', ''9AM'')])]\<rparr>"
  let ?subs = "[''A'', ''B'']"
  let ?S = "(''Mon'', ''9AM'')"
  have d: "distinct (map fst (teachers ?st))" by simp
  have m: "(''T'', ?subs) \<in> set (teachers ?st)" by simp
  have h: "(0::nat) < 1 \<and> 1 < length ?subs
            \<and> ?S \<in> set (dict_get (schedule ?st) (?subs ! 0) [])
            \<and> ?S \<in> set (dict_get (schedule ?st) (?subs ! 1) [])"
    by (simp add: dict_get_def)
  from find_teacher_conflicts_records[OF d m] h
  obtain k recs pre post where k: "k \<le> (0::nat)"
      "map_of (fst (find_teacher_conflicts ?st)) ''T'' = Some recs"
      "recs = pre @ (?subs ! 1, ?S) # (?subs ! k, ?S) # post"
    by blast
  from k(1) have "k = 0" by simp
  with k(2,3) have "map_of (fst (find_teacher_conflicts ?st)) ''T''
      = Some (pre @ (''B'', ?S) # (''A'', ?S) # post)"
    by simp
  then show ?thesis by blast
qed

theorem find_teacher_conflicts_records_counterexample:
  "fst (find_teacher_conflicts
     \<lparr>subjects = [''C'', ''A'', ''B''], teachers = [(''T'', [''C'', ''A'', ''B''])],
      time_slots = [(''Mon'', ''9AM'')],
      schedule = [(''C'', [(''Mon'', ''9AM'')]), (''A'', [(''Mon'', ''9AM'')]),
                  (''B'', [(''Mon'', ''9AM'')])]\<rparr>)
   = [(''T'', [(''A'', (''Mon'', ''9AM'')), (''C'', (''Mon'', ''9AM'')),
              (''B'', (''Mon'', ''9AM'')), (''C'', (''Mon'', ''9AM''))])]
   \<and> fst (find_teacher_conflicts
     \<lparr>subjects = [''A''], teachers = [(''T'', [''A'', ''A''])],
      time_slots = [(''Mon'', ''9AM''), (''Mon'', ''10AM'')],
      schedule = [(''A'', [(''Mon'', ''9AM'')])]\<rparr>)
   = [(''T'', [(''A'', (''Mon'', ''9AM'')), (''A'', (''Mon'', ''9AM''))])]"
  by (simp add: find_teacher_conflicts_def dict_get_def dict_append_def)

text \<open>
  C10. \<^verbatim>\<open>find_teacher_conflicts\<close> returns the scheduler as it received it: the
  schedule, the subjects, the teachers and the time slots are unchanged, after one call
  and after any number of calls, so a call changes neither its own later results nor
  those of \<^verbatim>\<open>resolve_teacher_conflicts\<close> and \<^verbatim>\<open>finalize_schedule\<close>.
\<close>

theorem find_teacher_conflicts_pure:
  "snd (find_teacher_conflicts st) = st
   \<and> ((\<lambda>s. snd (find_teacher_conflicts s)) ^^ n) st = st
   \<and> fst (find_teacher_conflicts (snd (find_teacher_conflicts st))) = fst (find_teacher_conflicts st)
   \<and> resolve_teacher_conflicts (snd (find_teacher_conflicts st)) = resolve_teacher_conflicts st
   \<and> finalize_schedule slot_hash (snd (find_teacher_conflicts st)) = finalize_schedule slot_hash st"
proof -
  have "((\<lambda>s. snd (find_teacher_conflicts s)) ^^ n) st = st"
    by (induction n) (simp_all add: find_teacher_conflicts_state)
  then show ?thesis by (simp add: find_teacher_conflicts_state)
qed

section \<open>Properties of finalize_schedule\<close>

lemma set_update_cases:
  "(a, b) \<in> set (AList.update k v sch) \<Longrightarrow> (a, b) = (k, v) \<or> (a, b) \<in> set sch"
  by (induction sch) (auto split: if_splits)

lemma occupied_update_subset:
  "occupied_slots_of (AList.update k v sch) \<subseteq> set v \<union> occupied_slots_of sch"
proof
  fix x assume "x \<in> occupied_slots_of (AList.update k v sch)"
  then obtain a b where "(a, b) \<in> set (AList.update k v sch)" "x \<in> set b"
    by (auto simp: occupied_slots_of_iff)
  then show "x \<in> set v \<union> occupied_slots_of sch"
    using set_update_cases[of a b k v sch] by (auto simp: occupied_slots_of_iff)
qed

lemma map_of_occupied:
  assumes "map_of sch k = Some l" shows "set l \<subseteq> occupied_slots_of sch"
proof
  fix x assume a: "x \<in> set l"
  from assms have "(k, l) \<in> set sch" by (rule map_of_SomeD)
  with a show "x \<in> occupied_slots_of sch"
    unfolding occupied_slots_of_iff by blast
qed

lemma dict_get_occupied: "set (dict_get sch k []) \<subseteq> occupied_slots_of sch"
proof (cases "map_of sch k")
  case None
  then show ?thesis by (simp add: dict_get_def)
next
  case (Some l)
  with map_of_occupied[OF Some] show ?thesis by (simp add: dict_get_def)
qed

lemma finalize_loop_other:
  "k \<notin> set subs \<Longrightarrow> map_of (finalize_loop subs avail sch) k = map_of sch k"
  by (induction subs arbitrary: avail sch) (auto simp: update_conv' split: list.splits)

lemma finalize_loop_changed:
  assumes "distinct avail" and "set avail \<inter> occupied_slots_of sch = {}"
    and "map_of (finalize_loop subs avail sch) k \<noteq> map_of sch k"
  shows "k \<in> set subs \<and> (\<exists>t \<in> set avail. map_of (finalize_loop subs avail sch) k = Some [t]
           \<and> (\<forall>k2. k2 \<noteq> k \<longrightarrow> t \<notin> set (dict_get (finalize_loop subs avail sch) k2 [])))"
  using assms
proof (induction subs arbitrary: avail sch k)
  case Nil
  then show ?case by simp
next
  case (Cons s subs)
  show ?case
  proof (cases avail)
    case Nil
    with Cons.prems Cons.IH[of "[]" sch] show ?thesis by simp
  next
    case (Cons t others)
    let ?sch1 = "AList.update s [t] sch"
    let ?res = "finalize_loop subs others ?sch1"
    have res: "finalize_loop (s # subs) avail sch = ?res" by (simp add: Cons)
    from Cons.prems(1) Cons have d: "distinct others" and tn: "t \<notin> set others" by auto
    from Cons.prems(2) Cons have tfree: "t \<notin> occupied_slots_of sch"
      and ofree: "set others \<inter> occupied_slots_of sch = {}" by auto
    have inv: "set others \<inter> occupied_slots_of ?sch1 = {}"
      using occupied_update_subset[of s "[t]" sch] ofree tn by auto
    note ih = Cons.IH[OF d inv]
    show ?thesis
    proof (cases "map_of ?res k = map_of ?sch1 k")
      case True
      with Cons.prems(3) res have ne: "map_of ?sch1 k \<noteq> map_of sch k" by simp
      then have ks: "k = s" by (auto simp: update_conv' split: if_splits)
      with True have val: "map_of ?res k = Some [t]" by (simp add: update_conv')
      have excl: "t \<notin> set (dict_get ?res k2 [])" if "k2 \<noteq> k" for k2
      proof (cases "map_of ?res k2 = map_of ?sch1 k2")
        case True
        with that ks have "map_of ?res k2 = map_of sch k2" by (simp add: update_conv')
        then have "dict_get ?res k2 [] = dict_get sch k2 []" by (simp add: dict_get_def)
        with dict_get_occupied[of sch k2] tfree show ?thesis by auto
      next
        case False
        from ih[OF False] obtain t' where "t' \<in> set others" "map_of ?res k2 = Some [t']"
          by blast
        with tn show ?thesis by (auto simp: dict_get_def)
      qed
      from ks val excl show ?thesis by (auto simp: res Cons)
    next
      case False
      from ih[OF False] show ?thesis by (auto simp: res Cons)
    qed
  qed
qed

lemma set_available_slots_of:
  "set (available_slots_of slot_hash st) = set (time_slots st) - occupied_slots_of (schedule st)"
  by (auto simp: available_slots_of_def set_iteration_def)

lemma distinct_available_slots_of: "distinct (available_slots_of slot_hash st)"
  by (simp add: available_slots_of_def set_iteration_def)

text \<open>
  C2. \<^verbatim>\<open>finalize_schedule\<close> leaves every subject with a non-empty slot list as it was.
  A subject whose entry it changes is one of the subjects list whose slot list was empty
  or absent; it gets exactly one slot, which is a time slot that no subject held before
  the call and which no other subject holds after it, so no free slot is given to two
  subjects. This holds for every order in which the set of free slots is iterated.
\<close>

theorem finalize_schedule_frame:
  "(\<forall>subject slots. map_of (schedule st) subject = Some slots \<and> slots \<noteq> [] \<longrightarrow>
       map_of (schedule (finalize_schedule slot_hash st)) subject = Some slots)
   \<and> (\<forall>subject.
        map_of (schedule (finalize_schedule slot_hash st)) subject \<noteq> map_of (schedule st) subject \<longrightarrow>
          subject \<in> set (subjects st)
          \<and> (map_of (schedule st) subject = None \<or> map_of (schedule st) subject = Some [])
          \<and> (\<exists>slot. map_of (schedule (finalize_schedule slot_hash st)) subject = Some [slot]
                \<and> slot \<in> set (time_slots st)
                \<and> slot \<notin> occupied_slots_of (schedule st)
                \<and> (\<forall>other. other \<noteq> subject \<longrightarrow>
                      slot \<notin> set (dict_get (schedule (finalize_schedule slot_hash st)) other []))))
   \<and> subjects (finalize_schedule slot_hash st) = subjects st
   \<and> teachers (finalize_schedule slot_hash st) = teachers st
   \<and> time_slots (finalize_schedule slot_hash st) = time_slots st"
proof -
  let ?avail = "available_slots_of slot_hash st"
  let ?un = "unassigned_subjects_of st"
  let ?res = "finalize_loop ?un ?avail (schedule st)"
  have sch: "schedule (finalize_schedule slot_hash st) = ?res"
    by (simp add: finalize_schedule_def)
  have d: "distinct ?avail" by (rule distinct_available_slots_of)
  have free: "set ?avail \<inter> occupied_slots_of (schedule st) = {}"
    by (auto simp: set_available_slots_of)
  have changed: "subject \<in> set (subjects st)
          \<and> (map_of (schedule st) subject = None \<or> map_of (schedule st) subject = Some [])
          \<and> (\<exists>slot. map_of ?res subject = Some [slot]
                \<and> slot \<in> set (time_slots st)
                \<and> slot \<notin> occupied_slots_of (schedule st)
                \<and> (\<forall>other. other \<noteq> subject \<longrightarrow> slot \<notin> set (dict_get ?res other [])))"
    if ne: "map_of ?res subject \<noteq> map_of (schedule st) subject" for subject
  proof -
    from finalize_loop_changed[OF d free ne]
    obtain t where t: "subject \<in> set ?un" "t \<in> set ?avail" "map_of ?res subject = Some [t]"
        "\<forall>k2. k2 \<noteq> subject \<longrightarrow> t \<notin> set (dict_get ?res k2 [])"
      by blast
    from t(1) have a: "subject \<in> set (subjects st)"
      and b: "map_of (schedule st) subject = None \<or> map_of (schedule st) subject = Some []"
      by (auto simp: unassigned_subjects_of_def dict_get_def split: option.splits)
    from t(2) have c: "t \<in> set (time_slots st)" "t \<notin> occupied_slots_of (schedule st)"
      by (auto simp: set_available_slots_of)
    from a b c t(3,4) show ?thesis by blast
  qed
  have kept: "map_of ?res subject = Some slots"
    if "map_of (schedule st) subject = Some slots \<and> slots \<noteq> []" for subject slots
  proof (rule ccontr)
    assume "map_of ?res subject \<noteq> Some slots"
    with that have "map_of ?res subject \<noteq> map_of (schedule st) subject" by simp
    from changed[OF this] that show False by auto
  qed
  from changed kept show ?thesis
    unfolding sch by (simp add: finalize_schedule_def)
qed

theorem finalize_schedule_frame_witness:
  "map_of (schedule (finalize_schedule (\<lambda>slot. 0)
      \<lparr>subjects = [''A'', ''B''], teachers = [],
       time_slots = [(''Mon'', ''9AM''), (''Mon'', ''10AM'')],
       schedule = [(''A'', [(''Mon'', ''9AM'')]), (''B'', [])]\<rparr>)) ''A''
     = Some [(''Mon'', ''9AM'')]
   \<and> (\<exists>slot. map_of (schedule (finalize_schedule (\<lambda>slot. 0)
      \<lparr>subjects = [''A'', ''B''], teachers = [],
       time_slots = [(''Mon'', ''9AM''), (''Mon'', ''10AM'')],
       schedule = [(''A'', [(''Mon'', ''9AM'')]), (''B'', [])]\<rparr>)) ''B'' = Some [slot]
       \<and> slot \<notin> occupied_slots_of [(''A'', [(''Mon'', ''9AM'')]), (''B'', [])]
       \<and> slot \<notin> set (dict_get (schedule (finalize_schedule (\<lambda>slot. 0)
      \<lparr>subjects = [''A'', ''B''], teachers = [],
       time_slots = [(''Mon'', ''9AM''), (''Mon'', ''10AM'')],
       schedule = [(''A'', [(''Mon'', ''9AM'')]), (''B'', [])]\<rparr>)) ''A'' []))"
proof -
  let ?st = "\<lparr>subjects = [''A'', ''B''], teachers = [],
       time_slots = [(''Mon'', ''9AM''), (''Mon'', ''10AM'')],
       schedule = [(''A'', [(''Mon'', ''9AM'')]), (''B'', [])]\<rparr>"
  let ?h = "\<lambda>slot::time_slot. 0::nat"
  note t = finalize_schedule_frame[of ?st ?h]
  have a: "map_of (schedule ?st) ''A'' = Some [(''Mon'', ''9AM'')] \<and> [(''Mon'', ''9AM'')] \<noteq> []"
    by simp
  with t have kept: "map_of (schedule (finalize_schedule ?h ?st)) ''A'' = Some [(''Mon'', ''9AM'')]"
    by blast
  have ne: "map_of (schedule (finalize_schedule ?h ?st)) ''B'' \<noteq> map_of (schedule ?st) ''B''"
    by (simp add: finalize_schedule_def unassigned_subjects_of_def available_slots_of_def
        set_iteration_def occupied_slots_of_def dict_get_def)
  with t obtain slot where s: "map_of (schedule (finalize_schedule ?h ?st)) ''B'' = Some [slot]"
      "slot \<notin> occupied_slots_of (schedule ?st)"
      "\<forall>other. other \<noteq> ''B'' \<longrightarrow> slot \<notin> set (dict_get (schedule (finalize_schedule ?h ?st)) other [])"
    by blast
  from s(3) have "slot \<notin> set (dict_get (schedule (finalize_schedule ?h ?st)) ''A'' [])"
    by simp
  with kept s(1,2) show ?thesis by auto
qed


section \<open>Properties of resolve_teacher_conflicts\<close>

lemma update_same_shape:
  "distinct (map fst sch) \<Longrightarrow> (k, v) \<in> set sch \<Longrightarrow> f v' = f v \<Longrightarrow>
   map (apsnd f) (AList.update k v' sch) = map (apsnd f) sch"
proof (induction sch)
  case Nil
  then show ?case by simp
next
  case (Cons a sch)
  then show ?case by (cases a) (auto simp: rev_image_eqI)
qed

lemma map_fst_apsnd: "map fst (map (apsnd f) sch) = map fst sch"
  by (simp add: comp_def)

lemma same_shape_keys:
  "map (apsnd f) sch' = map (apsnd f) sch \<Longrightarrow> map fst sch' = map fst sch"
  using map_fst_apsnd[of f sch'] map_fst_apsnd[of f sch] by simp

lemma in_set_map_of: "distinct (map fst sch) \<Longrightarrow> (k, v) \<in> set sch \<Longrightarrow> map_of sch k = Some v"
  by simp

lemma occupied_update_same:
  assumes "distinct (map fst sch)" and "(k, l) \<in> set sch" and "set v = set l"
  shows "occupied_slots_of (AList.update k v sch) = occupied_slots_of sch"
  using assms
proof (induction sch)
  case Nil
  then show ?case by simp
next
  case (Cons a sch)
  obtain k' l' where a: "a = (k', l')" by (cases a)
  show ?case
  proof (cases "k' = k")
    case True
    with Cons.prems a have "l' = l" by (auto simp: rev_image_eqI)
    with True a Cons.prems(3) show ?thesis by (simp add: occupied_slots_of_def)
  next
    case False
    with Cons.prems a have "(k, l) \<in> set sch" "distinct (map fst sch)" by auto
    with Cons.IH Cons.prems(3) False a show ?thesis by (simp add: occupied_slots_of_def)
  qed
qed

text \<open>In the swap branch no time slot is free, so after the removal only the removed slot
  can be free, and the slot appended is the one removed.\<close>

lemma first_unoccupied_after_removal:
  assumes "first_unoccupied occ ts = None" and "occ \<subseteq> occ' \<union> {t}"
  shows "first_unoccupied occ' ts = None \<or> first_unoccupied occ' ts = Some t"
  using assms by (induction ts) (auto split: if_splits)

lemma swap_with_another_result:
  assumes d: "distinct (map fst (schedule st))"
    and items: "set items \<subseteq> set (schedule st)"
    and none: "find_alternative_slot st t = None"
  shows "swap_with_another subject t items st = st
       \<or> (\<exists>k l. (k, l) \<in> set items \<and> k \<noteq> subject \<and> t \<in> set l
            \<and> swap_with_another subject t items st
                = st\<lparr>schedule := AList.update k (remove1 t l @ [t]) (schedule st)\<rparr>)"
  using items
proof (induction items)
  case Nil
  then show ?case by simp
next
  case (Cons a items)
  obtain k l where a: "a = (k, l)" by (cases a)
  show ?case
  proof (cases "k \<noteq> subject \<and> t \<in> set l")
    case True
    let ?removed = "remove1 t l"
    let ?st1 = "st\<lparr>schedule := AList.update k ?removed (schedule st)\<rparr>"
    from Cons.prems a have mem: "(k, l) \<in> set (schedule st)" by simp
    have "occupied_slots_of (schedule st) \<subseteq> occupied_slots_of (schedule ?st1) \<union> {t}"
    proof
      fix x assume "x \<in> occupied_slots_of (schedule st)"
      then obtain k' l' where x: "(k', l') \<in> set (schedule st)" "x \<in> set l'"
        by (auto simp: occupied_slots_of_iff)
      show "x \<in> occupied_slots_of (schedule ?st1) \<union> {t}"
      proof (cases "k' = k")
        case True
        with x mem d have "l' = l" by (metis in_set_map_of option.inject)
        have "map_of (AList.update k ?removed (schedule st)) k = Some ?removed"
          by (simp add: update_conv')
        then have "set ?removed \<subseteq> occupied_slots_of (schedule ?st1)"
          using map_of_occupied[of "AList.update k ?removed (schedule st)" k ?removed] by simp
        moreover from x \<open>l' = l\<close> have "x = t \<or> x \<in> set ?removed"
          by (metis in_set_remove1)
        ultimately show ?thesis by auto
      next
        case False
        from x d have "map_of (schedule st) k' = Some l'" by simp
        with False have "map_of (AList.update k ?removed (schedule st)) k' = Some l'"
          by (simp add: update_conv')
        then have "set l' \<subseteq> occupied_slots_of (schedule ?st1)"
          using map_of_occupied[of "AList.update k ?removed (schedule st)" k' l'] by simp
        with x show ?thesis by auto
      qed
    qed
    with none have "find_alternative_slot ?st1 t = None \<or> find_alternative_slot ?st1 t = Some t"
      unfolding find_alternative_slot_def
      using first_unoccupied_after_removal[of "occupied_slots_of (schedule st)" "time_slots st"
          "occupied_slots_of (schedule ?st1)" t]
      by simp
    then have "(case find_alternative_slot ?st1 t of Some alternative_slot \<Rightarrow> alternative_slot
                | None \<Rightarrow> t) = t"
      by auto
    with True a have "swap_with_another subject t (a # items) st
        = st\<lparr>schedule := AList.update k (remove1 t l @ [t]) (schedule st)\<rparr>"
      by (simp add: Let_def)
    with True a show ?thesis by auto
  next
    case False
    with a have "swap_with_another subject t (a # items) st = swap_with_another subject t items st"
      by auto
    with Cons show ?thesis by auto
  qed
qed

lemma resolve_pair_cases:
  assumes d: "distinct (map fst (schedule st))"
    and r: "resolve_pair (subject, t) st = Inr st'"
  shows "(\<exists>alt slots. find_alternative_slot st t = Some alt
            \<and> map_of (schedule st) subject = Some slots \<and> t \<in> set slots
            \<and> st' = st\<lparr>schedule := AList.update subject (remove1 t slots @ [alt]) (schedule st)\<rparr>)
       \<or> (find_alternative_slot st t = None
            \<and> (st' = st
               \<or> (\<exists>k l. (k, l) \<in> set (schedule st) \<and> k \<noteq> subject \<and> t \<in> set l
                    \<and> st' = st\<lparr>schedule := AList.update k (remove1 t l @ [t]) (schedule st)\<rparr>)))"
proof (cases "find_alternative_slot st t")
  case None
  with r have st': "st' = swap_with_another subject t (schedule st) st"
    by (simp add: resolve_pair_def)
  from swap_with_another_result[OF d subset_refl None, of subject] st' None
  show ?thesis by auto
next
  case (Some alt)
  with r show ?thesis
    by (auto simp: resolve_pair_def split: option.splits if_splits)
qed

lemma resolve_pair_shape:
  assumes d: "distinct (map fst (schedule st))"
    and r: "resolve_pair p st = Inr st'"
  shows "map (apsnd length) (schedule st') = map (apsnd length) (schedule st)
       \<and> subjects st' = subjects st \<and> teachers st' = teachers st \<and> time_slots st' = time_slots st"
proof -
  obtain subject t where p: "p = (subject, t)" by (cases p)
  from resolve_pair_cases[OF d r[unfolded p]]
  consider
    (move) alt slots where "map_of (schedule st) subject = Some slots" "t \<in> set slots"
      "st' = st\<lparr>schedule := AList.update subject (remove1 t slots @ [alt]) (schedule st)\<rparr>"
  | (same) "st' = st"
  | (swap) k l where "(k, l) \<in> set (schedule st)" "t \<in> set l"
      "st' = st\<lparr>schedule := AList.update k (remove1 t l @ [t]) (schedule st)\<rparr>"
    by blast
  then show ?thesis
  proof cases
    case move
    from move(1) have m: "(subject, slots) \<in> set (schedule st)" by (rule map_of_SomeD)
    from move(2) have "length slots \<noteq> 0" by auto
    with move(2) have "length (remove1 t slots @ [alt]) = length slots"
      by (simp add: length_remove1)
    from update_same_shape[OF d m, of length, OF this] move(3) show ?thesis by simp
  next
    case same
    then show ?thesis by simp
  next
    case swap
    from swap(2) have "length l \<noteq> 0" by auto
    with swap(2) have "length (remove1 t l @ [t]) = length l"
      by (simp add: length_remove1)
    from update_same_shape[OF d swap(1), of length, OF this] swap(3) show ?thesis by simp
  qed
qed

lemma resolve_pairs_shape:
  "distinct (map fst (schedule st)) \<Longrightarrow> resolve_pairs ps st = Inr st' \<Longrightarrow>
   map (apsnd length) (schedule st') = map (apsnd length) (schedule st)
     \<and> subjects st' = subjects st \<and> teachers st' = teachers st \<and> time_slots st' = time_slots st"
proof (induction ps arbitrary: st)
  case Nil
  then show ?case by simp
next
  case (Cons p ps)
  from Cons.prems(2) obtain st1 where 1: "resolve_pair p st = Inr st1"
    and 2: "resolve_pairs ps st1 = Inr st'"
    by (auto split: sum.splits)
  note s1 = resolve_pair_shape[OF Cons.prems(1) 1]
  then have "map fst (schedule st1) = map fst (schedule st)" by (auto dest: same_shape_keys)
  with Cons.prems(1) have "distinct (map fst (schedule st1))" by simp
  from Cons.IH[OF this 2] s1 show ?case by simp
qed

lemma resolve_conflicts_shape:
  "distinct (map fst (schedule st)) \<Longrightarrow> resolve_conflicts cs st = Inr st' \<Longrightarrow>
   map (apsnd length) (schedule st') = map (apsnd length) (schedule st)
     \<and> subjects st' = subjects st \<and> teachers st' = teachers st \<and> time_slots st' = time_slots st"
proof (induction cs arbitrary: st)
  case Nil
  then show ?case by simp
next
  case (Cons c cs)
  obtain teacher ps where c: "c = (teacher, ps)" by (cases c)
  from Cons.prems(2) c obtain st1 where 1: "resolve_pairs ps st = Inr st1"
    and 2: "resolve_conflicts cs st1 = Inr st'"
    by (auto split: sum.splits)
  note s1 = resolve_pairs_shape[OF Cons.prems(1) 1]
  then have "map fst (schedule st1) = map fst (schedule st)" by (auto dest: same_shape_keys)
  with Cons.prems(1) have "distinct (map fst (schedule st1))" by simp
  from Cons.IH[OF this 2] s1 show ?case by simp
qed

lemma resolve_teacher_conflicts_shape:
  assumes "distinct (map fst (schedule st))" and "resolve_teacher_conflicts st = Inr st'"
  shows "map (apsnd length) (schedule st') = map (apsnd length) (schedule st)
     \<and> subjects st' = subjects st \<and> teachers st' = teachers st \<and> time_slots st' = time_slots st"
proof -
  obtain cs st0 where f: "find_teacher_conflicts st = (cs, st0)" by (cases "find_teacher_conflicts st")
  with find_teacher_conflicts_state[of st] have "st0 = st" by simp
  with f assms(2) have "resolve_conflicts cs st = Inr st'"
    by (simp add: resolve_teacher_conflicts_def)
  from resolve_conflicts_shape[OF assms(1) this] show ?thesis .
qed

lemma short_of_shape:
  assumes "map (apsnd length) sch' = map (apsnd length) sch"
    and "\<forall>(subject, slots) \<in> set sch. length slots \<le> n"
  shows "\<forall>(subject, slots) \<in> set sch'. length slots \<le> n"
proof -
  have "\<forall>(subject, m) \<in> set (map (apsnd length) sch). m \<le> n"
    using assms(2) by auto
  with assms(1) have "\<forall>(subject, m) \<in> set (map (apsnd length) sch'). m \<le> n" by simp
  then show ?thesis by force
qed

lemma initialize_loop_short:
  "\<forall>(subject, slots) \<in> set sch. length slots \<le> 1 \<Longrightarrow>
   \<forall>(subject, slots) \<in> set (initialize_loop subs avail sch). length slots \<le> 1"
proof (induction subs arbitrary: avail sch)
  case Nil
  then show ?case by simp
next
  case (Cons s subs)
  have u: "\<forall>(subject, slots) \<in> set (AList.update s v sch). length slots \<le> 1" if "length v \<le> 1" for v
    using Cons.prems that by (auto dest: set_update_cases)
  show ?case
  proof (cases avail)
    case Nil
    with Cons.IH[OF u[of "[]"], of "[]"] show ?thesis by simp
  next
    case (Cons c popped)
    with Cons.IH[OF u[of "[c]"], of popped] show ?thesis by simp
  qed
qed

lemma initialize_loop_distinct:
  "distinct (map fst sch) \<Longrightarrow> distinct (map fst (initialize_loop subs avail sch))"
  by (induction subs arbitrary: avail sch) (auto simp: distinct_update split: list.splits)

lemma finalize_loop_short:
  "\<forall>(subject, slots) \<in> set sch. length slots \<le> 1 \<Longrightarrow>
   \<forall>(subject, slots) \<in> set (finalize_loop subs avail sch). length slots \<le> 1"
proof (induction subs arbitrary: avail sch)
  case Nil
  then show ?case by simp
next
  case (Cons s subs)
  have u: "\<forall>(subject, slots) \<in> set (AList.update s v sch). length slots \<le> 1" if "length v \<le> 1" for v
    using Cons.prems that by (auto dest: set_update_cases)
  show ?case
  proof (cases avail)
    case Nil
    with Cons.IH[OF Cons.prems, of "[]"] show ?thesis by simp
  next
    case (Cons c others)
    with Cons.IH[OF u[of "[c]"], of others] show ?thesis by simp
  qed
qed

text \<open>
  C9. On a freshly constructed scheduler every slot list has at most one slot after
  \<^verbatim>\<open>initialize_schedule\<close>; when \<^verbatim>\<open>resolve_teacher_conflicts\<close> completes without an error
  it leaves the keys of the schedule and the length of every slot list as they were (each
  step removes one slot and appends one), so the lists still have at most one slot; and
  they still have after \<^verbatim>\<open>finalize_schedule\<close>, which only stores singleton lists.
\<close>

theorem slot_lists_at_most_one:
  "(\<forall>(subject, slots) \<in> set (schedule (initialize_schedule (Scheduler subs tch ts))).
       length slots \<le> 1)
   \<and> (\<forall>st1. resolve_teacher_conflicts (initialize_schedule (Scheduler subs tch ts)) = Inr st1 \<longrightarrow>
         map (apsnd length) (schedule st1)
           = map (apsnd length) (schedule (initialize_schedule (Scheduler subs tch ts)))
         \<and> (\<forall>(subject, slots) \<in> set (schedule st1). length slots \<le> 1)
         \<and> (\<forall>(subject, slots) \<in> set (schedule (finalize_schedule slot_hash st1)).
               length slots \<le> 1))
   \<and> (\<forall>st2. run_pipeline slot_hash subs tch ts = Inr st2 \<longrightarrow>
         (\<forall>(subject, slots) \<in> set (schedule st2). length slots \<le> 1))"
proof -
  let ?st0 = "initialize_schedule (Scheduler subs tch ts)"
  have a: "\<forall>(subject, slots) \<in> set (schedule ?st0). length slots \<le> 1"
    using initialize_loop_short[of "[]" subs ts]
    by (simp add: initialize_schedule_def Scheduler_def)
  have d: "distinct (map fst (schedule ?st0))"
    using initialize_loop_distinct[of "[]" subs ts]
    by (simp add: initialize_schedule_def Scheduler_def)
  have b: "map (apsnd length) (schedule st1) = map (apsnd length) (schedule ?st0)
         \<and> (\<forall>(subject, slots) \<in> set (schedule st1). length slots \<le> 1)
         \<and> (\<forall>(subject, slots) \<in> set (schedule (finalize_schedule slot_hash st1)).
               length slots \<le> 1)"
    if r: "resolve_teacher_conflicts ?st0 = Inr st1" for st1
  proof -
    from resolve_teacher_conflicts_shape[OF d r]
    have s: "map (apsnd length) (schedule st1) = map (apsnd length) (schedule ?st0)" by simp
    from short_of_shape[OF s a]
    have s1: "\<forall>(subject, slots) \<in> set (schedule st1). length slots \<le> 1" .
    from finalize_loop_short[OF s1]
    have "\<forall>(subject, slots) \<in> set (schedule (finalize_schedule slot_hash st1)). length slots \<le> 1"
      by (simp add: finalize_schedule_def)
    with s s1 show ?thesis by simp
  qed
  have c: "\<forall>(subject, slots) \<in> set (schedule st2). length slots \<le> 1"
    if "run_pipeline slot_hash subs tch ts = Inr st2" for st2
  proof -
    from that obtain st1 where "resolve_teacher_conflicts ?st0 = Inr st1"
      "st2 = finalize_schedule slot_hash st1"
      by (auto simp: run_pipeline_def split: sum.splits)
    with b show ?thesis by simp
  qed
  from a b c show ?thesis by blast
qed

theorem slot_lists_at_most_one_witness:
  "\<exists>st. run_pipeline (\<lambda>slot. 0) [''Math'', ''Physics'', ''Chemistry'', ''Biology'']
          [(''Alice'', [''Math'', ''Physics'']), (''Bob'', [''Chemistry'']), (''Charlie'', [''Biology''])]
          [(''Monday'', ''9AM''), (''Monday'', ''10AM''), (''Monday'', ''11AM'')] = Inr st
        \<and> (\<forall>(subject, slots) \<in> set (schedule st). length slots \<le> 1)"
proof -
  let ?subs = "[''Math'', ''Physics'', ''Chemistry'', ''Biology'']"
  let ?tch = "[(''Alice'', [''Math'', ''Physics'']), (''Bob'', [''Chemistry'']), (''Charlie'', [''Biology''])]"
  let ?ts = "[(''Monday'', ''9AM''), (''Monday'', ''10AM''), (''Monday'', ''11AM'')]"
  let ?h = "\<lambda>slot::time_slot. 0::nat"
  have "\<exists>st. run_pipeline ?h ?subs ?tch ?ts = Inr st"
    by (simp add: run_pipeline_def resolve_teacher_conflicts_def find_teacher_conflicts_def
        initialize_schedule_def Scheduler_def dict_get_def dict_append_def)
  then obtain st where r: "run_pipeline ?h ?subs ?tch ?ts = Inr st" by blast
  with slot_lists_at_most_one[of ?subs ?tch ?ts ?h]
  have "\<forall>(subject, slots) \<in> set (schedule st). length slots \<le> 1" by blast
  with r show ?thesis by blast
qed

subsection \<open>Slot lists rearranged: the conflict records as sets\<close>

lemma scan_block_set:
  "set (scan_pairs occ (map (Pair s) l)) =
     {r. \<exists>t \<in> set l. (\<exists>h. occ t = Some h \<and> (r = (s, t) \<or> r = (h, t)))
                     \<or> (occ t = None \<and> 2 \<le> count_list l t \<and> r = (s, t))}"
proof (induction l arbitrary: occ)
  case Nil
  then show ?case by simp
next
  case (Cons t0 l)
  let ?R = "\<lambda>occ l. {r. \<exists>t \<in> set l. (\<exists>h. occ t = Some h \<and> (r = (s, t) \<or> r = (h, t)))
                     \<or> (occ t = None \<and> 2 \<le> count_list l t \<and> r = (s, t))}"
  show ?case
  proof (cases "occ t0")
    case None
    let ?occ' = "occ(t0 \<mapsto> s)"
    have e: "scan_pairs occ (map (Pair s) (t0 # l)) = scan_pairs ?occ' (map (Pair s) l)"
      using None by simp
    have "set (scan_pairs occ (map (Pair s) (t0 # l))) = set (scan_pairs ?occ' (map (Pair s) l))"
      by (simp only: e)
    also have "\<dots> = ?R ?occ' l"
      by (rule Cons.IH)
    also have "?R ?occ' l = ?R occ (t0 # l)"
    proof (rule set_eqI)
      fix r
      show "r \<in> ?R ?occ' l \<longleftrightarrow> r \<in> ?R occ (t0 # l)"
      proof
        assume "r \<in> ?R ?occ' l"
        then obtain t where t: "t \<in> set l"
          "(\<exists>h. ?occ' t = Some h \<and> (r = (s, t) \<or> r = (h, t)))
             \<or> (?occ' t = None \<and> 2 \<le> count_list l t \<and> r = (s, t))"
          by blast
        show "r \<in> ?R occ (t0 # l)"
        proof (cases "t = t0")
          case True
          with t have "r = (s, t0)" by auto
          moreover from True t(1) have "2 \<le> count_list (t0 # l) t0"
            using count_list_0_iff[of l t0] by simp
          ultimately show ?thesis using None by auto
        next
          case False
          with t show ?thesis by auto
        qed
      next
        assume "r \<in> ?R occ (t0 # l)"
        then obtain t where t: "t \<in> set (t0 # l)"
          "(\<exists>h. occ t = Some h \<and> (r = (s, t) \<or> r = (h, t)))
             \<or> (occ t = None \<and> 2 \<le> count_list (t0 # l) t \<and> r = (s, t))"
          by blast
        show "r \<in> ?R ?occ' l"
        proof (cases "t = t0")
          case True
          with t None have c: "2 \<le> count_list (t0 # l) t0" and r: "r = (s, t0)" by auto
          from c have "t0 \<in> set l" using count_list_0_iff[of l t0] by auto
          moreover have "?occ' t0 = Some s" by simp
          ultimately show ?thesis using r by blast
        next
          case False
          with t have "t \<in> set l" by simp
          moreover from False t(2) have
            "(\<exists>h. ?occ' t = Some h \<and> (r = (s, t) \<or> r = (h, t)))
             \<or> (?occ' t = None \<and> 2 \<le> count_list l t \<and> r = (s, t))"
            by auto
          ultimately show ?thesis by blast
        qed
      qed
    qed
    finally show ?thesis .
  next
    case (Some h0)
    have e: "scan_pairs occ (map (Pair s) (t0 # l)) = (s, t0) # (h0, t0) # scan_pairs occ (map (Pair s) l)"
      using Some by simp
    have "set (scan_pairs occ (map (Pair s) (t0 # l)))
        = {(s, t0), (h0, t0)} \<union> set (scan_pairs occ (map (Pair s) l))"
      by (simp only: e) simp
    also have "set (scan_pairs occ (map (Pair s) l)) = ?R occ l"
      by (rule Cons.IH)
    finally have "set (scan_pairs occ (map (Pair s) (t0 # l))) = {(s, t0), (h0, t0)} \<union> ?R occ l" .
    also have "{(s, t0), (h0, t0)} \<union> ?R occ l = ?R occ (t0 # l)"
    proof (rule set_eqI)
      fix r
      show "r \<in> {(s, t0), (h0, t0)} \<union> ?R occ l \<longleftrightarrow> r \<in> ?R occ (t0 # l)"
      proof
        assume a: "r \<in> {(s, t0), (h0, t0)} \<union> ?R occ l"
        show "r \<in> ?R occ (t0 # l)"
        proof (cases "r \<in> {(s, t0), (h0, t0)}")
          case True
          with Some show ?thesis by auto
        next
          case False
          with a obtain t where t: "t \<in> set l"
            "(\<exists>h. occ t = Some h \<and> (r = (s, t) \<or> r = (h, t)))
               \<or> (occ t = None \<and> 2 \<le> count_list l t \<and> r = (s, t))"
            by blast
          from t(2) Some have
            "(\<exists>h. occ t = Some h \<and> (r = (s, t) \<or> r = (h, t)))
               \<or> (occ t = None \<and> 2 \<le> count_list (t0 # l) t \<and> r = (s, t))"
            by auto
          with t(1) show ?thesis by auto
        qed
      next
        assume "r \<in> ?R occ (t0 # l)"
        then obtain t where t: "t \<in> set (t0 # l)"
          "(\<exists>h. occ t = Some h \<and> (r = (s, t) \<or> r = (h, t)))
             \<or> (occ t = None \<and> 2 \<le> count_list (t0 # l) t \<and> r = (s, t))"
          by blast
        show "r \<in> {(s, t0), (h0, t0)} \<union> ?R occ l"
        proof (cases "t = t0")
          case True
          with t(2) Some show ?thesis by auto
        next
          case False
          with t have "t \<in> set l" by simp
          moreover from False t(2) have
            "(\<exists>h. occ t = Some h \<and> (r = (s, t) \<or> r = (h, t)))
               \<or> (occ t = None \<and> 2 \<le> count_list l t \<and> r = (s, t))"
            by auto
          ultimately show ?thesis by blast
        qed
      qed
    qed
    finally show ?thesis .
  qed
qed

lemma claim_block:
  "claim_pairs occ (map (Pair s) l) =
     (\<lambda>t. case occ t of Some h \<Rightarrow> Some h | None \<Rightarrow> if t \<in> set l then Some s else None)"
proof (rule ext)
  fix t
  have "find (\<lambda>p. snd p = t) (map (Pair s) l) = (if t \<in> set l then Some (s, t) else None)"
    by (induction l) auto
  then show "claim_pairs occ (map (Pair s) l) t =
     (case occ t of Some h \<Rightarrow> Some h | None \<Rightarrow> if t \<in> set l then Some s else None)"
    by (simp add: claim_pairs_lookup split: option.splits)
qed

lemma block_mset:
  assumes "mset l' = mset l"
  shows "set (scan_pairs occ (map (Pair s) l')) = set (scan_pairs occ (map (Pair s) l))"
    and "claim_pairs occ (map (Pair s) l') = claim_pairs occ (map (Pair s) l)"
proof -
  from assms have s: "set l' = set l" by (rule mset_eq_setD)
  from assms have c: "count_list l' t = count_list l t" for t
    by (metis count_mset)
  show "set (scan_pairs occ (map (Pair s) l')) = set (scan_pairs occ (map (Pair s) l))"
    by (simp add: scan_block_set s c)
  show "claim_pairs occ (map (Pair s) l') = claim_pairs occ (map (Pair s) l)"
    unfolding claim_block s ..
qed

lemma subject_pairs_mset:
  assumes "\<forall>k. mset (dict_get sch' k []) = mset (dict_get sch k [])"
  shows "set (scan_pairs occ (subject_pairs sch' subs)) = set (scan_pairs occ (subject_pairs sch subs))
       \<and> claim_pairs occ (subject_pairs sch' subs) = claim_pairs occ (subject_pairs sch subs)"
proof (induction subs arbitrary: occ)
  case Nil
  then show ?case by simp
next
  case (Cons s subs)
  from assms have m: "mset (dict_get sch' s []) = mset (dict_get sch s [])" by simp
  note b = block_mset[OF m, of occ s]
  show ?case
    by (simp add: subject_pairs_Cons scan_pairs_append claim_pairs_append b Cons.IH)
qed

lemma teacher_records_mset:
  assumes "\<forall>k. mset (dict_get sch' k []) = mset (dict_get sch k [])"
  shows "set (teacher_records sch' subs) = set (teacher_records sch subs)"
  using subject_pairs_mset[OF assms, of Map.empty subs] by (simp add: teacher_records_def)

lemma conflict_entries_mset:
  assumes "\<forall>k. mset (dict_get sch' k []) = mset (dict_get sch k [])"
  shows "map (apsnd set) (conflict_entries sch' ts) = map (apsnd set) (conflict_entries sch ts)"
proof -
  have e: "(teacher_records sch' subs = []) = (teacher_records sch subs = [])" for subs
    using teacher_records_mset[OF assms, of subs] by (metis set_empty)
  show ?thesis
    by (induction ts) (auto simp: conflict_entries_def e teacher_records_mset[OF assms])
qed

subsection \<open>Resolution when no time slot is free\<close>

lemma dict_get_update:
  "dict_get (AList.update k v sch) k' dflt = (if k' = k then v else dict_get sch k' dflt)"
  by (simp add: dict_get_def update_conv')

lemma dict_get_member:
  "distinct (map fst sch) \<Longrightarrow> (k, l) \<in> set sch \<Longrightarrow> dict_get sch k dflt = l"
  by (simp add: dict_get_def)

lemma resolve_pair_saturated:
  assumes d: "distinct (map fst (schedule st))"
    and sat: "set (time_slots st) \<subseteq> occupied_slots_of (schedule st)"
  shows "\<exists>st'. resolve_pair p st = Inr st'
           \<and> subjects st' = subjects st \<and> teachers st' = teachers st
           \<and> time_slots st' = time_slots st
           \<and> map fst (schedule st') = map fst (schedule st)
           \<and> occupied_slots_of (schedule st') = occupied_slots_of (schedule st)
           \<and> (\<forall>k. mset (dict_get (schedule st') k []) = mset (dict_get (schedule st) k []))"
proof -
  obtain subject t where p: "p = (subject, t)" by (cases p)
  from sat have none: "find_alternative_slot st t = None"
    by (simp add: find_alternative_slot_def first_unoccupied_None)
  then have r: "resolve_pair p st = Inr (swap_with_another subject t (schedule st) st)"
    by (simp add: resolve_pair_def p)
  from swap_with_another_result[OF d subset_refl none, of subject]
  consider (same) "swap_with_another subject t (schedule st) st = st"
    | (swap) k l where "(k, l) \<in> set (schedule st)" "t \<in> set l"
        "swap_with_another subject t (schedule st) st
           = st\<lparr>schedule := AList.update k (remove1 t l @ [t]) (schedule st)\<rparr>"
    by blast
  then show ?thesis
  proof cases
    case same
    with r show ?thesis by simp
  next
    case swap
    let ?v = "remove1 t l @ [t]"
    from swap(2) have ms: "mset ?v = mset l" by simp
    then have se: "set ?v = set l" by (rule mset_eq_setD)
    from swap(2) have "length l \<noteq> 0" by auto
    with swap(2) have len: "length ?v = length l" by (simp add: length_remove1)
    from update_same_shape[OF d swap(1), of length ?v, OF len]
    have keys: "map fst (AList.update k ?v (schedule st)) = map fst (schedule st)"
      by (rule same_shape_keys)
    have occ: "occupied_slots_of (AList.update k ?v (schedule st)) = occupied_slots_of (schedule st)"
      by (rule occupied_update_same[OF d swap(1) se])
    have "mset (dict_get (AList.update k ?v (schedule st)) k' []) = mset (dict_get (schedule st) k' [])"
      for k'
      using dict_get_member[OF d swap(1), of "[]"] ms by (simp add: dict_get_update)
    with r swap(3) keys occ show ?thesis by simp
  qed
qed

lemma resolve_pairs_saturated:
  assumes "distinct (map fst (schedule st))"
    and "set (time_slots st) \<subseteq> occupied_slots_of (schedule st)"
  shows "\<exists>st'. resolve_pairs ps st = Inr st'
           \<and> subjects st' = subjects st \<and> teachers st' = teachers st
           \<and> time_slots st' = time_slots st
           \<and> map fst (schedule st') = map fst (schedule st)
           \<and> occupied_slots_of (schedule st') = occupied_slots_of (schedule st)
           \<and> (\<forall>k. mset (dict_get (schedule st') k []) = mset (dict_get (schedule st) k []))"
  using assms
proof (induction ps arbitrary: st)
  case Nil
  then show ?case by simp
next
  case (Cons p ps)
  from resolve_pair_saturated[OF Cons.prems, of p]
  obtain st1 where 1: "resolve_pair p st = Inr st1"
    "subjects st1 = subjects st" "teachers st1 = teachers st" "time_slots st1 = time_slots st"
    "map fst (schedule st1) = map fst (schedule st)"
    "occupied_slots_of (schedule st1) = occupied_slots_of (schedule st)"
    "\<forall>k. mset (dict_get (schedule st1) k []) = mset (dict_get (schedule st) k [])"
    by blast
  from 1 Cons.prems have d1: "distinct (map fst (schedule st1))"
    and s1: "set (time_slots st1) \<subseteq> occupied_slots_of (schedule st1)" by simp_all
  from Cons.IH[OF d1 s1]
  obtain st' where 2: "resolve_pairs ps st1 = Inr st'"
    "subjects st' = subjects st1" "teachers st' = teachers st1" "time_slots st' = time_slots st1"
    "map fst (schedule st') = map fst (schedule st1)"
    "occupied_slots_of (schedule st') = occupied_slots_of (schedule st1)"
    "\<forall>k. mset (dict_get (schedule st') k []) = mset (dict_get (schedule st1) k [])"
    by blast
  from 1 2 show ?case by simp
qed

lemma resolve_conflicts_saturated:
  assumes "distinct (map fst (schedule st))"
    and "set (time_slots st) \<subseteq> occupied_slots_of (schedule st)"
  shows "\<exists>st'. resolve_conflicts cs st = Inr st'
           \<and> subjects st' = subjects st \<and> teachers st' = teachers st
           \<and> time_slots st' = time_slots st
           \<and> map fst (schedule st') = map fst (schedule st)
           \<and> occupied_slots_of (schedule st') = occupied_slots_of (schedule st)
           \<and> (\<forall>k. mset (dict_get (schedule st') k []) = mset (dict_get (schedule st) k []))"
  using assms
proof (induction cs arbitrary: st)
  case Nil
  then show ?case by simp
next
  case (Cons c cs)
  obtain teacher ps where c: "c = (teacher, ps)" by (cases c)
  from resolve_pairs_saturated[OF Cons.prems, of ps]
  obtain st1 where 1: "resolve_pairs ps st = Inr st1"
    "subjects st1 = subjects st" "teachers st1 = teachers st" "time_slots st1 = time_slots st"
    "map fst (schedule st1) = map fst (schedule st)"
    "occupied_slots_of (schedule st1) = occupied_slots_of (schedule st)"
    "\<forall>k. mset (dict_get (schedule st1) k []) = mset (dict_get (schedule st) k [])"
    by blast
  from 1 Cons.prems have d1: "distinct (map fst (schedule st1))"
    and s1: "set (time_slots st1) \<subseteq> occupied_slots_of (schedule st1)" by simp_all
  from Cons.IH[OF d1 s1]
  obtain st' where 2: "resolve_conflicts cs st1 = Inr st'"
    "subjects st' = subjects st1" "teachers st' = teachers st1" "time_slots st' = time_slots st1"
    "map fst (schedule st') = map fst (schedule st1)"
    "occupied_slots_of (schedule st') = occupied_slots_of (schedule st1)"
    "\<forall>k. mset (dict_get (schedule st') k []) = mset (dict_get (schedule st1) k [])"
    by blast
  from 1 2 c show ?case by simp
qed

lemma mset_eq_short:
  assumes "mset l' = mset l" and "length l \<le> 1"
  shows "l' = l"
proof (cases l)
  case Nil
  with assms show ?thesis by simp
next
  case (Cons a as)
  with assms(2) have "l = [a]" by simp
  with assms(1) show ?thesis by simp
qed

text \<open>
  C6. When every time slot is held by some subject, \<^verbatim>\<open>resolve_teacher_conflicts\<close>
  completes without an error and every subject holds the same slots afterwards as before:
  the keys of the schedule are the same, each slot list has the same slots with the same
  multiplicities (the swap removes a slot from a list and appends the same slot), and a
  list of at most one slot is the same list. A later \<^verbatim>\<open>find_teacher_conflicts\<close>
  reports the same teachers, in the same order, each with the same set of records, so
  every conflict of two subjects of one teacher on one slot is still reported.
\<close>

theorem resolve_saturated_keeps_conflicts:
  assumes "wf_scheduler st"
    and "set (time_slots st) \<subseteq> occupied_slots_of (schedule st)"
  shows "\<exists>st'. resolve_teacher_conflicts st = Inr st'
           \<and> map fst (schedule st') = map fst (schedule st)
           \<and> (\<forall>subject. mset (dict_get (schedule st') subject [])
                          = mset (dict_get (schedule st) subject []))
           \<and> (\<forall>subject. length (dict_get (schedule st) subject []) \<le> 1 \<longrightarrow>
                 dict_get (schedule st') subject [] = dict_get (schedule st) subject [])
           \<and> map (apsnd set) (fst (find_teacher_conflicts st'))
               = map (apsnd set) (fst (find_teacher_conflicts st))
           \<and> subjects st' = subjects st \<and> teachers st' = teachers st
           \<and> time_slots st' = time_slots st"
proof -
  from assms(1) have dt: "distinct (map fst (teachers st))"
    and ds: "distinct (map fst (schedule st))"
    by (simp_all add: wf_scheduler_def)
  have f: "find_teacher_conflicts st = (conflict_entries (schedule st) (teachers st), st)"
    using dt by (rule find_teacher_conflicts_eq)
  from resolve_conflicts_saturated[OF ds assms(2), of "conflict_entries (schedule st) (teachers st)"]
  obtain st' where r: "resolve_conflicts (conflict_entries (schedule st) (teachers st)) st = Inr st'"
    "subjects st' = subjects st" "teachers st' = teachers st" "time_slots st' = time_slots st"
    "map fst (schedule st') = map fst (schedule st)"
    and m: "\<forall>k. mset (dict_get (schedule st') k []) = mset (dict_get (schedule st) k [])"
    by blast
  from r(1) f have a: "resolve_teacher_conflicts st = Inr st'"
    by (simp add: resolve_teacher_conflicts_def)
  from dt r(3) have f': "find_teacher_conflicts st' = (conflict_entries (schedule st') (teachers st), st')"
    using find_teacher_conflicts_eq[of st'] by simp
  have c: "map (apsnd set) (fst (find_teacher_conflicts st'))
               = map (apsnd set) (fst (find_teacher_conflicts st))"
    using conflict_entries_mset[OF m, of "teachers st"] by (simp add: f f')
  have s: "dict_get (schedule st') subject [] = dict_get (schedule st) subject []"
    if "length (dict_get (schedule st) subject []) \<le> 1" for subject
    using m that by (auto intro: mset_eq_short)
  from a r(2-5) m c s show ?thesis by blast
qed

theorem resolve_saturated_keeps_conflicts_witness:
  "\<exists>st'. resolve_teacher_conflicts
       \<lparr>subjects = [''A'', ''B''], teachers = [(''T'', [''A'', ''B''])],
        time_slots = [(''Mon'', ''9AM'')],
        schedule = [(''A'', [(''Mon'', ''9AM'')]), (''B'', [(''Mon'', ''9AM'')])]\<rparr> = Inr st'
     \<and> dict_get (schedule st') ''A'' [] = [(''Mon'', ''9AM'')]
     \<and> dict_get (schedule st') ''B'' [] = [(''Mon'', ''9AM'')]
     \<and> map (apsnd set) (fst (find_teacher_conflicts st'))
         = [(''T'', {(''B'', (''Mon'', ''9AM'')), (''A'', (''Mon'', ''9AM''))})]"
proof -
  let ?st = "\<lparr>subjects = [''A'', ''B''], teachers = [(''T'', [''A'', ''B''])],
        time_slots = [(''Mon'', ''9AM'')],
        schedule = [(''A'', [(''Mon'', ''9AM'')]), (''B'', [(''Mon'', ''9AM'')])]\<rparr>"
  have wf: "wf_scheduler ?st" by (simp add: wf_scheduler_def)
  have sat: "set (time_slots ?st) \<subseteq> occupied_slots_of (schedule ?st)"
    by (simp add: occupied_slots_of_def)
  from resolve_saturated_keeps_conflicts[OF wf sat]
  obtain st' where r: "resolve_teacher_conflicts ?st = Inr st'"
    and same: "\<forall>subject. length (dict_get (schedule ?st) subject []) \<le> 1 \<longrightarrow>
                 dict_get (schedule st') subject [] = dict_get (schedule ?st) subject []"
    and c: "map (apsnd set) (fst (find_teacher_conflicts st'))
               = map (apsnd set) (fst (find_teacher_conflicts ?st))"
    by blast
  have a: "length (dict_get (schedule ?st) ''A'' []) \<le> 1"
    and b: "length (dict_get (schedule ?st) ''B'' []) \<le> 1"
    by (simp_all add: dict_get_def)
  from same a have a': "dict_get (schedule st') ''A'' [] = dict_get (schedule ?st) ''A'' []" by blast
  from same b have b': "dict_get (schedule st') ''B'' [] = dict_get (schedule ?st) ''B'' []" by blast
  have f: "fst (find_teacher_conflicts ?st)
      = [(''T'', [(''B'', (''Mon'', ''9AM'')), (''A'', (''Mon'', ''9AM''))])]"
    by (simp add: find_teacher_conflicts_def dict_get_def dict_append_def)
  from r a' b' c show ?thesis
    by (simp add: f dict_get_def)
qed


subsection \<open>Resolution of a single conflict with two free slots\<close>

lemma distinct_count_le: "distinct xs \<longleftrightarrow> (\<forall>x. count_list xs x \<le> 1)"
proof (induction xs)
  case Nil
  then show ?case by simp
next
  case (Cons a xs)
  show ?case
  proof
    assume d: "distinct (a # xs)"
    with Cons have "\<forall>x. count_list xs x \<le> 1" "a \<notin> set xs" by auto
    then show "\<forall>x. count_list (a # xs) x \<le> 1" by auto
  next
    assume c: "\<forall>x. count_list (a # xs) x \<le> 1"
    then have "count_list (a # xs) a \<le> 1" by blast
    then have "count_list xs a = 0" by simp
    then have a: "a \<notin> set xs" by (simp add: count_list_0_iff)
    have "count_list xs x \<le> 1" for x
      using c[rule_format, of x] by (simp split: if_splits)
    with Cons a show "distinct (a # xs)" by simp
  qed
qed

lemma count_concat:
  "count_list (concat (map f subs)) x = sum_list (map (\<lambda>s. count_list (f s) x) subs)"
  by (induction subs) simp_all

lemma sum_list_split2:
  "A \<noteq> B \<Longrightarrow>
   sum_list (map g subs) =
     count_list subs A * g A + count_list subs B * g B
       + sum_list (map g (filter (\<lambda>s. s \<noteq> A \<and> s \<noteq> B) subs))"
  by (induction subs) (auto simp: algebra_simps)

lemma scan_pairs_count:
  "count_list (map snd (scan_pairs occ P)) x =
     2 * (count_list (map snd P) x - (if occ x = None then 1 else 0))"
proof (induction P arbitrary: occ)
  case Nil
  then show ?case by simp
next
  case (Cons p P)
  obtain s t where p: "p = (s, t)" by (cases p)
  show ?case
  proof (cases "occ t")
    case None
    let ?occ' = "occ(t \<mapsto> s)"
    have e: "scan_pairs occ (p # P) = scan_pairs ?occ' P"
      using None by (simp add: p)
    have "count_list (map snd (scan_pairs occ (p # P))) x
        = count_list (map snd (scan_pairs ?occ' P)) x"
      by (simp only: e)
    also have "\<dots> = 2 * (count_list (map snd P) x - (if ?occ' x = None then 1 else 0))"
      by (rule Cons.IH)
    also have "\<dots> = 2 * (count_list (map snd (p # P)) x - (if occ x = None then 1 else 0))"
      using None by (auto simp: p)
    finally show ?thesis .
  next
    case (Some h)
    have e: "scan_pairs occ (p # P) = (s, t) # (h, t) # scan_pairs occ P"
      using Some by (simp add: p)
    have "count_list (map snd (scan_pairs occ (p # P))) x
        = (if t = x then 2 else 0) + count_list (map snd (scan_pairs occ P)) x"
      by (simp only: e) simp
    also have "count_list (map snd (scan_pairs occ P)) x
        = 2 * (count_list (map snd P) x - (if occ x = None then 1 else 0))"
      by (rule Cons.IH)
    finally show ?thesis using Some by (auto simp: p)
  qed
qed

lemma scan_pairs_subset:
  "set (scan_pairs occ P) \<subseteq> set P \<union> {(h, t). occ t = Some h}"
proof (induction P arbitrary: occ)
  case Nil
  then show ?case by simp
next
  case (Cons p P)
  obtain s t where p: "p = (s, t)" by (cases p)
  show ?case
  proof (cases "occ t")
    case None
    let ?occ' = "occ(t \<mapsto> s)"
    have e: "scan_pairs occ (p # P) = scan_pairs ?occ' P"
      using None by (simp add: p)
    have "set (scan_pairs ?occ' P) \<subseteq> set P \<union> {(h, t). ?occ' t = Some h}"
      by (rule Cons.IH)
    also have "\<dots> \<subseteq> set (p # P) \<union> {(h, t). occ t = Some h}"
      by (auto simp: p split: if_splits)
    finally show ?thesis by (simp only: e)
  next
    case (Some h)
    have e: "scan_pairs occ (p # P) = (s, t) # (h, t) # scan_pairs occ P"
      using Some by (simp add: p)
    from Cons.IH[of occ] Some show ?thesis
      by (simp only: e) (auto simp: p)
  qed
qed

lemma set_subject_pairs:
  "(s, t) \<in> set (subject_pairs sch subs) \<longleftrightarrow> s \<in> set subs \<and> t \<in> set (dict_get sch s [])"
  by (auto simp: subject_pairs_def)

lemma teacher_records_member:
  "(s, t) \<in> set (teacher_records sch subs) \<Longrightarrow> s \<in> set subs \<and> t \<in> set (dict_get sch s [])"
  using scan_pairs_subset[of Map.empty "subject_pairs sch subs"]
  by (auto simp: teacher_records_def set_subject_pairs)

lemma teacher_records_count:
  "count_list (map snd (teacher_records sch subs)) x =
     2 * (count_list (concat (map (\<lambda>s. dict_get sch s []) subs)) x - 1)"
  by (simp add: teacher_records_def scan_pairs_count map_snd_subject_pairs)

lemma single_conflict_counts:
  assumes "teacher_records sch subs = [(B, S), (A, S)]"
  shows "count_list (concat (map (\<lambda>s. dict_get sch s []) subs)) S = 2"
    and "\<forall>x. x \<noteq> S \<longrightarrow> count_list (concat (map (\<lambda>s. dict_get sch s []) subs)) x \<le> 1"
    and "A \<in> set subs" and "B \<in> set subs"
    and "S \<in> set (dict_get sch A [])" and "S \<in> set (dict_get sch B [])"
proof -
  let ?C = "\<lambda>x. count_list (concat (map (\<lambda>s. dict_get sch s []) subs)) x"
  from teacher_records_count[of sch subs S] assms have "2 * (?C S - 1) = 2" by simp
  then show "?C S = 2" by simp
  show "\<forall>x. x \<noteq> S \<longrightarrow> ?C x \<le> 1"
  proof (intro allI impI)
    fix x assume "x \<noteq> S"
    with teacher_records_count[of sch subs x] assms have "2 * (?C x - 1) = 0" by simp
    then show "?C x \<le> 1" by simp
  qed
  from assms have "(A, S) \<in> set (teacher_records sch subs)" "(B, S) \<in> set (teacher_records sch subs)"
    by simp_all
  then show "A \<in> set subs" "B \<in> set subs"
    "S \<in> set (dict_get sch A [])" "S \<in> set (dict_get sch B [])"
    by (auto dest: teacher_records_member)
qed

lemma count_remove1_append:
  "S \<in> set l \<Longrightarrow>
   count_list (remove1 S l @ [G]) x
     = count_list l x - (if x = S then 1 else 0) + (if x = G then 1 else 0)"
  by (induction l) auto

lemma relocated_distinct:
  fixes f :: "subject \<Rightarrow> time_slot list"
  assumes ne: "A \<noteq> B"
    and SA: "S \<in> set (f A)" and SB: "S \<in> set (f B)"
    and G: "G1 \<noteq> G2" "\<forall>s. G1 \<notin> set (f s)" "\<forall>s. G2 \<notin> set (f s)"
    and f': "f' = f(A := remove1 S (f A) @ [G2], B := remove1 S (f B) @ [G1])"
    and hyp: "(\<forall>x. count_list (concat (map f subs)) x \<le> 1)
            \<or> (count_list (concat (map f subs)) S = 2
                \<and> (\<forall>x. x \<noteq> S \<longrightarrow> count_list (concat (map f subs)) x \<le> 1)
                \<and> A \<in> set subs \<and> B \<in> set subs)"
  shows "distinct (concat (map f' subs))"
proof -
  let ?nA = "count_list subs A" and ?nB = "count_list subs B"
  let ?others = "filter (\<lambda>s. s \<noteq> A \<and> s \<noteq> B) subs"
  let ?C = "\<lambda>x. count_list (concat (map f subs)) x"
  let ?C' = "\<lambda>x. count_list (concat (map f' subs)) x"
  let ?rest = "\<lambda>x. sum_list (map (\<lambda>s. count_list (f s) x) ?others)"
  have same: "map (\<lambda>s. count_list (f' s) x) ?others = map (\<lambda>s. count_list (f s) x) ?others" for x
    by (rule map_cong) (auto simp: f')
  have C: "?C x = ?nA * count_list (f A) x + ?nB * count_list (f B) x + ?rest x" for x
    unfolding count_concat by (rule sum_list_split2[OF ne])
  have "?C' x = ?nA * count_list (f' A) x + ?nB * count_list (f' B) x
                 + sum_list (map (\<lambda>s. count_list (f' s) x) ?others)" for x
    unfolding count_concat by (rule sum_list_split2[OF ne])
  then have C': "?C' x = ?nA * count_list (f' A) x + ?nB * count_list (f' B) x + ?rest x" for x
    by (simp only: same)
  have fA: "f' A = remove1 S (f A) @ [G2]" and fB: "f' B = remove1 S (f B) @ [G1]"
    using ne by (simp_all add: f')
  have cA: "count_list (f' A) x
      = count_list (f A) x - (if x = S then 1 else 0) + (if x = G2 then 1 else 0)" for x
    unfolding fA by (rule count_remove1_append[OF SA])
  have cB: "count_list (f' B) x
      = count_list (f B) x - (if x = S then 1 else 0) + (if x = G1 then 1 else 0)" for x
    unfolding fB by (rule count_remove1_append[OF SB])
  from SA have sA: "1 \<le> count_list (f A) S"
    using count_list_0_iff[of "f A" S] by simp
  from SB have sB: "1 \<le> count_list (f B) S"
    using count_list_0_iff[of "f B" S] by simp
  from G(2) SA have G1S: "G1 \<noteq> S" by auto
  from G(3) SA have G2S: "G2 \<noteq> S" by auto
  have zero1: "count_list (f s) G1 = 0" for s using G(2) by simp
  have zero2: "count_list (f s) G2 = 0" for s using G(3) by simp
  have CG1: "?C G1 = 0" unfolding count_concat by (simp add: zero1)
  have CG2: "?C G2 = 0" unfolding count_concat by (simp add: zero2)
  have rest1: "?rest G1 = 0" by (simp add: zero1)
  have rest2: "?rest G2 = 0" by (simp add: zero2)
  have nAle: "?nA \<le> ?nA * count_list (f A) S" using sA by simp
  have nBle: "?nB \<le> ?nB * count_list (f B) S" using sB by simp
  have CS: "?nA + ?nB \<le> ?C S"
    using C[of S] nAle nBle by linarith
  have nA1: "?nA \<le> 1" and nB1: "?nB \<le> 1"
  proof -
    from hyp show "?nA \<le> 1"
    proof
      assume "\<forall>x. ?C x \<le> 1"
      then have "?C S \<le> 1" by blast
      with CS show ?thesis by linarith
    next
      assume h: "?C S = 2 \<and> (\<forall>x. x \<noteq> S \<longrightarrow> ?C x \<le> 1) \<and> A \<in> set subs \<and> B \<in> set subs"
      then have "?nB \<noteq> 0" by (simp add: count_list_0_iff)
      with CS h show ?thesis by linarith
    qed
    from hyp show "?nB \<le> 1"
    proof
      assume "\<forall>x. ?C x \<le> 1"
      then have "?C S \<le> 1" by blast
      with CS show ?thesis by linarith
    next
      assume h: "?C S = 2 \<and> (\<forall>x. x \<noteq> S \<longrightarrow> ?C x \<le> 1) \<and> A \<in> set subs \<and> B \<in> set subs"
      then have "?nA \<noteq> 0" by (simp add: count_list_0_iff)
      with CS h show ?thesis by linarith
    qed
  qed
  have "?C' x \<le> 1" for x
  proof -
    consider (S) "x = S" | (G1) "x = G1" | (G2) "x = G2" | (other) "x \<noteq> S" "x \<noteq> G1" "x \<noteq> G2"
      by blast
    then show ?thesis
    proof cases
      case S
      have a: "count_list (f' A) S = count_list (f A) S - 1"
        using cA[of S] G2S by simp
      have b: "count_list (f' B) S = count_list (f B) S - 1"
        using cB[of S] G1S by simp
      have ea: "?nA * (count_list (f A) S - 1) = ?nA * count_list (f A) S - ?nA"
        by (simp add: diff_mult_distrib2)
      have eb: "?nB * (count_list (f B) S - 1) = ?nB * count_list (f B) S - ?nB"
        by (simp add: diff_mult_distrib2)
      have c': "?C' S = (?nA * count_list (f A) S - ?nA) + (?nB * count_list (f B) S - ?nB) + ?rest S"
        using C'[of S] by (simp only: a b ea eb)
      from hyp have "?C' S \<le> 1"
      proof
        assume "\<forall>x. ?C x \<le> 1"
        then have "?C S \<le> 1" by blast
        with c' C[of S] show ?thesis by linarith
      next
        assume h: "?C S = 2 \<and> (\<forall>x. x \<noteq> S \<longrightarrow> ?C x \<le> 1) \<and> A \<in> set subs \<and> B \<in> set subs"
        then have "?nA \<noteq> 0" "?nB \<noteq> 0" by (simp_all add: count_list_0_iff)
        with c' C[of S] h nAle nBle show ?thesis by linarith
      qed
      with S show ?thesis by simp
    next
      case G1
      have "count_list (f' A) G1 = 0" using cA[of G1] G(1) G1S by (simp add: zero1)
      moreover have "count_list (f' B) G1 = 1" using cB[of G1] G1S by (simp add: zero1)
      ultimately have "?C' G1 = ?nB" using C'[of G1] rest1 by simp
      with nB1 G1 show ?thesis by simp
    next
      case G2
      have "count_list (f' B) G2 = 0" using cB[of G2] G(1) G2S by (simp add: zero2)
      moreover have "count_list (f' A) G2 = 1" using cA[of G2] G2S by (simp add: zero2)
      ultimately have "?C' G2 = ?nA" using C'[of G2] rest2 by simp
      with nA1 G2 show ?thesis by simp
    next
      case other
      then have "count_list (f' A) x = count_list (f A) x" "count_list (f' B) x = count_list (f B) x"
        using cA[of x] cB[of x] by simp_all
      then have "?C' x = ?C x" using C[of x] C'[of x] by simp
      moreover from hyp other(1) have "?C x \<le> 1" by blast
      ultimately show ?thesis by simp
    qed
  qed
  then show ?thesis by (simp add: distinct_count_le)
qed

lemma conflict_entries_single:
  assumes "conflict_entries sch ts = [(T, r)]"
  shows "\<exists>subs. (T, subs) \<in> set ts \<and> teacher_records sch subs = r"
    and "\<forall>(T', subs') \<in> set ts. teacher_records sch subs' = [] \<or> teacher_records sch subs' = r"
proof -
  have "(T, r) \<in> set (conflict_entries sch ts)" by (simp add: assms)
  then show "\<exists>subs. (T, subs) \<in> set ts \<and> teacher_records sch subs = r"
    by (auto simp: conflict_entries_def)
  show "\<forall>(T', subs') \<in> set ts. teacher_records sch subs' = [] \<or> teacher_records sch subs' = r"
  proof (clarify)
    fix T' subs'
    assume m: "(T', subs') \<in> set ts" and n: "teacher_records sch subs' \<noteq> r"
    show "teacher_records sch subs' = []"
    proof (rule ccontr)
      assume "teacher_records sch subs' \<noteq> []"
      with m have "(T', teacher_records sch subs') \<in> set (conflict_entries sch ts)"
        by (force simp: conflict_entries_def)
      with assms n show False by simp
    qed
  qed
qed

lemma free_slot_found:
  assumes "x \<in> set ts" and "x \<notin> occ"
  shows "\<exists>g. first_unoccupied occ ts = Some g \<and> g \<in> set ts \<and> g \<notin> occ"
proof (cases "first_unoccupied occ ts")
  case None
  with assms show ?thesis by (auto simp: first_unoccupied_None)
next
  case (Some g)
  then obtain pre post where "ts = pre @ g # post" "g \<notin> occ"
    unfolding first_unoccupied_Some by blast
  then have "g \<in> set ts" "g \<notin> occ" by simp_all
  with Some show ?thesis by blast
qed

lemma dict_get_present:
  "x \<in> set (dict_get sch k []) \<Longrightarrow> map_of sch k = Some (dict_get sch k [])"
  by (cases "map_of sch k") (simp_all add: dict_get_def)

text \<open>
  C5. When \<^verbatim>\<open>find_teacher_conflicts\<close> reports exactly one conflict, the records
  (B, S), (A, S) of two distinct subjects A and B of one teacher T on one slot S, and
  two different time slots are held by no subject, one call of
  \<^verbatim>\<open>resolve_teacher_conflicts\<close> completes without an error and resolves the
  conflict by relocation: B's slot list is its old list with S removed and G1 appended,
  A's slot list is its old list with S removed and G2 appended, where G1 is the first
  time slot held by no subject before the call and G2 the first one after G1 is taken,
  so G1 and G2 are two different time slots that no subject held before. Every other
  entry of the schedule, the keys and their order, the subjects, the teachers and the
  time slots are as they were, and a later \<^verbatim>\<open>find_teacher_conflicts\<close> returns the
  empty mapping.
\<close>

theorem resolve_single_conflict:
  assumes wf: "wf_scheduler st"
    and conf: "fst (find_teacher_conflicts st) = [(T, [(B, S), (A, S)])]"
    and ne: "A \<noteq> B"
    and F1: "F1 \<in> set (time_slots st)" "F1 \<notin> occupied_slots_of (schedule st)"
    and F2: "F2 \<in> set (time_slots st)" "F2 \<notin> occupied_slots_of (schedule st)"
    and F12: "F1 \<noteq> F2"
  shows "\<exists>st' G1 G2.
      resolve_teacher_conflicts st = Inr st'
    \<and> find_alternative_slot st S = Some G1
    \<and> first_unoccupied (insert G1 (occupied_slots_of (schedule st))) (time_slots st) = Some G2
    \<and> G1 \<in> set (time_slots st) \<and> G2 \<in> set (time_slots st)
    \<and> G1 \<notin> occupied_slots_of (schedule st) \<and> G2 \<notin> occupied_slots_of (schedule st)
    \<and> G1 \<noteq> G2
    \<and> S \<in> set (dict_get (schedule st) A []) \<and> S \<in> set (dict_get (schedule st) B [])
    \<and> st' = st\<lparr>schedule :=
               AList.update A (remove1 S (dict_get (schedule st) A []) @ [G2])
                 (AList.update B (remove1 S (dict_get (schedule st) B []) @ [G1])
                    (schedule st))\<rparr>
    \<and> dict_get (schedule st') B [] = remove1 S (dict_get (schedule st) B []) @ [G1]
    \<and> dict_get (schedule st') A [] = remove1 S (dict_get (schedule st) A []) @ [G2]
    \<and> (\<forall>k. k \<noteq> A \<and> k \<noteq> B \<longrightarrow> map_of (schedule st') k = map_of (schedule st) k)
    \<and> map fst (schedule st') = map fst (schedule st)
    \<and> subjects st' = subjects st \<and> teachers st' = teachers st
    \<and> time_slots st' = time_slots st
    \<and> fst (find_teacher_conflicts st') = []"
proof -
  let ?sch = "schedule st"
  let ?f = "\<lambda>s. dict_get ?sch s []"
  let ?r = "[(B, S), (A, S)]"
  from wf have dt: "distinct (map fst (teachers st))" by (simp add: wf_scheduler_def)
  from wf have ds: "distinct (map fst ?sch)" by (simp add: wf_scheduler_def)
  have held: "\<exists>k. x \<in> set (?f k)" if "x \<in> occupied_slots_of ?sch" for x
  proof -
    from that obtain k l where kl: "(k, l) \<in> set ?sch" "x \<in> set l"
      unfolding occupied_slots_of_iff by blast
    from dict_get_member[OF ds kl(1), of "[]"] kl(2) show ?thesis by blast
  qed
  have fe: "find_teacher_conflicts st = (conflict_entries ?sch (teachers st), st)"
    using dt by (rule find_teacher_conflicts_eq)
  with conf have ce: "conflict_entries ?sch (teachers st) = [(T, ?r)]" by simp
  from conflict_entries_single(1)[OF ce]
  obtain subs where subs: "(T, subs) \<in> set (teachers st)" "teacher_records ?sch subs = ?r"
    by blast
  note all = conflict_entries_single(2)[OF ce]
  note cnt = single_conflict_counts[OF subs(2)]
  from cnt(5) have SA: "S \<in> set (?f A)" .
  from cnt(6) have SB: "S \<in> set (?f B)" .
  from SA have mA: "map_of ?sch A = Some (?f A)" by (rule dict_get_present)
  from SB have mB: "map_of ?sch B = Some (?f B)" by (rule dict_get_present)
  \<comment> \<open>the first record moves B\<close>
  from free_slot_found[OF F1]
  obtain G1 where G1: "find_alternative_slot st S = Some G1" "G1 \<in> set (time_slots st)"
      "G1 \<notin> occupied_slots_of ?sch"
    unfolding find_alternative_slot_def by blast
  let ?vB = "remove1 S (?f B) @ [G1]"
  define sch1 where "sch1 = AList.update B ?vB ?sch"
  let ?st1 = "st\<lparr>schedule := sch1\<rparr>"
  have r1: "resolve_pair (B, S) st = Inr ?st1"
    using G1(1) mB SB by (simp add: resolve_pair_def sch1_def)
  \<comment> \<open>the second record moves A\<close>
  have occ1: "occupied_slots_of sch1 \<subseteq> occupied_slots_of ?sch \<union> {G1}"
  proof -
    have "set (remove1 S (?f B)) \<subseteq> set (?f B)" by (rule set_remove1_subset)
    also have "\<dots> \<subseteq> occupied_slots_of ?sch" by (rule dict_get_occupied)
    finally show ?thesis
      using occupied_update_subset[of B ?vB ?sch] unfolding sch1_def by auto
  qed
  obtain F where F: "F \<in> set (time_slots st)" "F \<notin> occupied_slots_of sch1"
  proof (cases "F1 = G1")
    case True
    with F12 have "F2 \<noteq> G1" by simp
    with F2 occ1 have "F2 \<in> set (time_slots st)" "F2 \<notin> occupied_slots_of sch1" by auto
    then show ?thesis by (rule that)
  next
    case False
    with F1 occ1 have "F1 \<in> set (time_slots st)" "F1 \<notin> occupied_slots_of sch1" by auto
    then show ?thesis by (rule that)
  qed
  from free_slot_found[OF F]
  obtain G2 where G2': "first_unoccupied (occupied_slots_of sch1) (time_slots st) = Some G2"
    and G2ts: "G2 \<in> set (time_slots st)"
    and G2: "G2 \<notin> occupied_slots_of sch1"
    by blast
  from G2' have G2a: "find_alternative_slot ?st1 S = Some G2"
    by (simp add: find_alternative_slot_def)
  have g1: "dict_get sch1 k [] = (if k = B then ?vB else ?f k)" for k
    unfolding sch1_def by (rule dict_get_update)
  have in1: "set (dict_get sch1 k []) \<subseteq> occupied_slots_of sch1" for k
    by (rule dict_get_occupied)
  have "G1 \<in> set (dict_get sch1 B [])" by (simp add: g1)
  with in1[of B] have G1in: "G1 \<in> occupied_slots_of sch1" by blast
  with G2 have G12: "G1 \<noteq> G2" by auto
  have "S \<in> set (dict_get sch1 A [])" using SA ne by (simp add: g1)
  with in1[of A] have Sin: "S \<in> occupied_slots_of sch1" by blast
  with G2 have G2S: "G2 \<noteq> S" by auto
  have G1free: "\<forall>s. G1 \<notin> set (?f s)"
    using G1(3) dict_get_occupied[of ?sch] by blast
  have G2free: "\<forall>s. G2 \<notin> set (?f s)"
  proof
    fix s
    show "G2 \<notin> set (?f s)"
    proof (cases "s = B")
      case True
      show ?thesis
      proof
        assume "G2 \<in> set (?f s)"
        with True G2S have "G2 \<in> set (remove1 S (?f B))" by simp
        then have "G2 \<in> set (dict_get sch1 B [])" by (simp add: g1)
        with in1[of B] G2 show False by blast
      qed
    next
      case False
      then have "dict_get sch1 s [] = ?f s" by (simp add: g1)
      with in1[of s] G2 show ?thesis by auto
    qed
  qed
  let ?vA = "remove1 S (?f A) @ [G2]"
  define sch2 where "sch2 = AList.update A ?vA sch1"
  let ?st2 = "st\<lparr>schedule := sch2\<rparr>"
  have mA1: "map_of sch1 A = Some (?f A)"
    using mA ne by (simp add: update_conv' sch1_def)
  have r2: "resolve_pair (A, S) ?st1 = Inr ?st2"
    using G2a mA1 SA by (simp add: resolve_pair_def sch2_def)
  have res: "resolve_teacher_conflicts st = Inr ?st2"
    using r1 r2 by (simp add: resolve_teacher_conflicts_def fe ce)
  \<comment> \<open>no teacher has a conflict afterwards\<close>
  let ?f' = "?f(A := ?vA, B := ?vB)"
  have g2: "(\<lambda>s. dict_get sch2 s []) = ?f'"
  proof (rule ext)
    fix s
    have "dict_get sch2 s [] = (if s = A then ?vA else dict_get sch1 s [])"
      unfolding sch2_def by (rule dict_get_update)
    then show "dict_get sch2 s [] = ?f' s" using ne by (simp add: g1)
  qed
  have none: "teacher_records sch2 subs' = []" if m: "(T', subs') \<in> set (teachers st)" for T' subs'
  proof -
    from all m have "teacher_records ?sch subs' = [] \<or> teacher_records ?sch subs' = ?r" by blast
    then have hyp: "(\<forall>x. count_list (concat (map ?f subs')) x \<le> 1)
            \<or> (count_list (concat (map ?f subs')) S = 2
                \<and> (\<forall>x. x \<noteq> S \<longrightarrow> count_list (concat (map ?f subs')) x \<le> 1)
                \<and> A \<in> set subs' \<and> B \<in> set subs')"
    proof
      assume "teacher_records ?sch subs' = []"
      then have "distinct (concat (map ?f subs'))" by (simp add: teacher_records_Nil_iff)
      then have "\<forall>x. count_list (concat (map ?f subs')) x \<le> 1"
        by (rule distinct_count_le[THEN iffD1])
      then show ?thesis by (rule disjI1)
    next
      assume "teacher_records ?sch subs' = ?r"
      from single_conflict_counts(1-4)[OF this] show ?thesis by blast
    qed
    have "distinct (concat (map ?f' subs'))"
      by (rule relocated_distinct[OF ne SA SB G12 G1free G2free refl hyp])
    then have "distinct (concat (map (\<lambda>s. dict_get sch2 s []) subs'))"
      by (simp only: g2)
    then show ?thesis
      by (simp only: teacher_records_Nil_iff)
  qed
  have "conflict_entries sch2 (teachers st) = []"
    unfolding conflict_entries_def using none by (auto simp: filter_empty_conv)
  moreover have "find_teacher_conflicts ?st2 = (conflict_entries (schedule ?st2) (teachers ?st2), ?st2)"
    using dt by (intro find_teacher_conflicts_eq) simp
  ultimately have nocf: "fst (find_teacher_conflicts ?st2) = []" by simp
  \<comment> \<open>the state after the call\<close>
  have G2occ: "G2 \<notin> occupied_slots_of ?sch"
    using held[of G2] G2free by blast
  have occ1eq: "occupied_slots_of sch1 = insert G1 (occupied_slots_of ?sch)"
  proof
    show "occupied_slots_of sch1 \<subseteq> insert G1 (occupied_slots_of ?sch)"
      using occ1 by auto
    show "insert G1 (occupied_slots_of ?sch) \<subseteq> occupied_slots_of sch1"
    proof
      fix x assume x: "x \<in> insert G1 (occupied_slots_of ?sch)"
      show "x \<in> occupied_slots_of sch1"
      proof (cases "x = G1")
        case True
        with G1in show ?thesis by simp
      next
        case False
        with x have "x \<in> occupied_slots_of ?sch" by simp
        from held[OF this] obtain k where k: "x \<in> set (?f k)" by blast
        show ?thesis
        proof (cases "x = S")
          case True
          with Sin show ?thesis by simp
        next
          case xS: False
          from k xS have "x \<in> set (dict_get sch1 k [])" by (auto simp: g1)
          with in1[of k] show ?thesis by blast
        qed
      qed
    qed
  qed
  from G2' have second: "first_unoccupied (insert G1 (occupied_slots_of ?sch)) (time_slots st) = Some G2"
    by (simp only: occ1eq)
  have st2: "?st2 = st\<lparr>schedule := AList.update A ?vA (AList.update B ?vB ?sch)\<rparr>"
    by (simp add: sch2_def sch1_def)
  have vB2: "dict_get (schedule ?st2) B [] = ?vB"
    using fun_cong[OF g2, of B] by simp
  have vA2: "dict_get (schedule ?st2) A [] = ?vA"
    using fun_cong[OF g2, of A] ne by simp
  have others: "\<forall>k. k \<noteq> A \<and> k \<noteq> B \<longrightarrow> map_of (schedule ?st2) k = map_of ?sch k"
    by (simp add: sch2_def sch1_def update_conv')
  from mA have kA: "A \<in> set (map fst ?sch)"
    by (auto dest!: map_of_SomeD intro: rev_image_eqI)
  from mB have kB: "B \<in> set (map fst ?sch)"
    by (auto dest!: map_of_SomeD intro: rev_image_eqI)
  have keys1: "map fst sch1 = map fst ?sch"
    unfolding sch1_def using kB by (simp add: update_keys)
  have keys: "map fst (schedule ?st2) = map fst ?sch"
    using kA keys1 by (simp add: sch2_def update_keys)
  have fields: "subjects ?st2 = subjects st" "teachers ?st2 = teachers st"
    "time_slots ?st2 = time_slots st"
    by simp_all
  from res G1 second G2ts G2occ G12 SA SB st2 vB2 vA2 others keys fields nocf
  show ?thesis by blast
qed


theorem resolve_single_conflict_witness:
  "\<exists>st'. resolve_teacher_conflicts
       \<lparr>subjects = [''A'', ''B''], teachers = [(''T'', [''A'', ''B''])],
        time_slots = [(''Mon'', ''9AM''), (''Mon'', ''10AM''), (''Mon'', ''11AM'')],
        schedule = [(''A'', [(''Mon'', ''9AM'')]), (''B'', [(''Mon'', ''9AM'')])]\<rparr> = Inr st'
     \<and> schedule st' = [(''A'', [(''Mon'', ''11AM'')]), (''B'', [(''Mon'', ''10AM'')])]
     \<and> fst (find_teacher_conflicts st') = []"
proof -
  let ?st = "\<lparr>subjects = [''A'', ''B''], teachers = [(''T'', [''A'', ''B''])],
        time_slots = [(''Mon'', ''9AM''), (''Mon'', ''10AM''), (''Mon'', ''11AM'')],
        schedule = [(''A'', [(''Mon'', ''9AM'')]), (''B'', [(''Mon'', ''9AM'')])]\<rparr>"
  let ?S = "(''Mon'', ''9AM'')"
  have wf: "wf_scheduler ?st" by (simp add: wf_scheduler_def)
  have conf: "fst (find_teacher_conflicts ?st) = [(''T'', [(''B'', ?S), (''A'', ?S)])]"
    by (simp add: find_teacher_conflicts_def dict_get_def dict_append_def)
  have ne: "''A'' \<noteq> ''B''" by simp
  have F1: "(''Mon'', ''10AM'') \<in> set (time_slots ?st)"
      "(''Mon'', ''10AM'') \<notin> occupied_slots_of (schedule ?st)"
    and F2: "(''Mon'', ''11AM'') \<in> set (time_slots ?st)"
      "(''Mon'', ''11AM'') \<notin> occupied_slots_of (schedule ?st)"
    and F12: "(''Mon'', ''10AM'') \<noteq> (''Mon'', ''11AM'')"
    by (simp_all add: occupied_slots_of_def)
  obtain st' G1 G2 where r: "resolve_teacher_conflicts ?st = Inr st'"
    and g1: "find_alternative_slot ?st ?S = Some G1"
    and g2: "first_unoccupied (insert G1 (occupied_slots_of (schedule ?st))) (time_slots ?st) = Some G2"
    and st': "st' = ?st\<lparr>schedule :=
               AList.update ''A'' (remove1 ?S (dict_get (schedule ?st) ''A'' []) @ [G2])
                 (AList.update ''B'' (remove1 ?S (dict_get (schedule ?st) ''B'' []) @ [G1])
                    (schedule ?st))\<rparr>"
    and c: "fst (find_teacher_conflicts st') = []"
    using resolve_single_conflict[OF wf conf ne F1 F2 F12]
    by (elim exE conjE) (rule that; assumption)
  from g1 have G1: "G1 = (''Mon'', ''10AM'')"
    by (simp add: find_alternative_slot_def occupied_slots_of_def)
  from g2 have G2: "G2 = (''Mon'', ''11AM'')"
    by (simp add: G1 occupied_slots_of_def)
  from st' have "schedule st' = [(''A'', [(''Mon'', ''11AM'')]), (''B'', [(''Mon'', ''10AM'')])]"
    by (simp add: G1 G2 dict_get_def)
  with r c show ?thesis by (intro exI conjI)
qed

section \<open>The pipeline on a teacher who lists a subject twice\<close>

text \<open>
  C1. With one subject, a teacher whose list names it twice, and two time slots,
  \<^verbatim>\<open>initialize_schedule\<close> gives the subject the first slot, \<^verbatim>\<open>find_teacher_conflicts\<close>
  reports the subject twice against itself, the first record moves the subject to the
  second slot, and the second record finds the first slot free again and calls
  \<^verbatim>\<open>remove\<close> for a slot the subject no longer holds: the pipeline raises ValueError.
\<close>

theorem run_pipeline_raises_ValueError:
  "run_pipeline slot_hash [''A''] [(''T'', [''A'', ''A''])]
     [(''Mon'', ''9AM''), (''Mon'', ''10AM'')] = Inl ValueError"
  by (simp add: run_pipeline_def resolve_teacher_conflicts_def find_teacher_conflicts_def
      initialize_schedule_def Scheduler_def dict_get_def dict_append_def resolve_pair_def
      find_alternative_slot_def occupied_slots_of_def)

end
